theory Spec2Isabelle
  imports Complex_Main
begin

section \<open>Faults, pointers and buffers\<close>

text \<open>
  The tensor module is C code over heap buffers. Each C function becomes a HOL function
  whose result is a value of \<open>fault + 'a\<close>: \<open>Inl\<close> carries the way the call dies
  (a failed \<open>assert\<close>, a read or write outside a buffer, a null dereference, ...),
  \<open>Inr\<close> the state the call leaves behind.

  A pointer field is \<open>Null\<close>, a live buffer \<open>Buf xs\<close> with its contents, or
  \<open>Dangling\<close> once the buffer it pointed to has been released. Tensors never share
  buffers (the module's ownership rule), so a buffer is carried by the one pointer
  that owns it.

  Numbers: \<open>size_t\<close> values are natural numbers. A tensor whose data buffer exists
  has fewer than \<open>2 ^ 64\<close> elements, every product or offset the module forms over
  such a tensor is bounded by its element count, and so none of the \<open>size_t\<close>
  operations on it wraps; the element count of a tensor that is yet to be allocated
  is bounded by \<open>SIZE_MAX\<close> in every statement that depends on it. The one narrowing
  conversion of the module, the \<open>(int)\<close> cast
  of an element count at a kernel call, is written out (\<open>size_t_to_int\<close>).
  \<open>double complex\<close> is the field of complex numbers: rounding is not modelled.

  Ranks are C \<open>int\<close>s and are computed with as integers. The only rank arithmetic of
  the module that can leave the range of an \<open>int\<close> is the sum of the ranks of two
  operands (in \<open>MultiplyTensor\<close> and \<open>TensorKroneckerProduct\<close>); the statements
  about the tensors these two functions return ask for that sum to be below \<open>2\<^sup>3\<^sup>1\<close>.

  Memory: the zero-initialised allocation behind \<open>AllocateTensor\<close> can fail, and the
  assertion that follows it then aborts the call.
\<close>

datatype fault =
    AssertionFailed
  | NullDeref
  | UseAfterFree
  | OutOfBounds
  | Uninitialised
  | DivisionByZero
  | DoubleFree
  | KernelIllegalArg
  | Diverges

datatype 'a buf = Null | Buf "'a list" | Dangling

abbreviation bnd :: "fault + 'a \<Rightarrow> ('a \<Rightarrow> fault + 'b) \<Rightarrow> fault + 'b" where
  "bnd m f \<equiv> (case m of Inl e \<Rightarrow> Inl e | Inr x \<Rightarrow> f x)"

definition rdl :: "'a list \<Rightarrow> nat \<Rightarrow> fault + 'a" where
  "rdl xs i = (if i < length xs then Inr (xs ! i) else Inl OutOfBounds)"

definition wrl :: "'a list \<Rightarrow> nat \<Rightarrow> 'a \<Rightarrow> fault + 'a list" where
  "wrl xs i v = (if i < length xs then Inr (xs[i := v]) else Inl OutOfBounds)"

definition rd :: "'a buf \<Rightarrow> nat \<Rightarrow> fault + 'a" where
  "rd p i = (case p of Null \<Rightarrow> Inl NullDeref | Dangling \<Rightarrow> Inl UseAfterFree
               | Buf xs \<Rightarrow> rdl xs i)"

definition wr :: "'a buf \<Rightarrow> nat \<Rightarrow> 'a \<Rightarrow> fault + 'a buf" where
  "wr p i v = (case p of Null \<Rightarrow> Inl NullDeref | Dangling \<Rightarrow> Inl UseAfterFree
                 | Buf xs \<Rightarrow> bnd (wrl xs i v) (\<lambda>ys. Inr (Buf ys)))"

text \<open>An index held in a C \<open>int\<close>: a negative one is outside every buffer.\<close>

definition rdi :: "'a list \<Rightarrow> int \<Rightarrow> fault + 'a" where
  "rdi xs i = (if i < 0 then Inl OutOfBounds else rdl xs (nat i))"

definition wri :: "'a list \<Rightarrow> int \<Rightarrow> 'a \<Rightarrow> fault + 'a list" where
  "wri xs i v = (if i < 0 then Inl OutOfBounds else wrl xs (nat i) v)"

text \<open>\<open>p + k\<close> for a pointer that is only read through.\<close>

definition ptr_add :: "'a buf \<Rightarrow> nat \<Rightarrow> 'a buf" where
  "ptr_add p k = (case p of Buf xs \<Rightarrow> Buf (drop k xs) | Null \<Rightarrow> Null | Dangling \<Rightarrow> Dangling)"

text \<open>The first \<open>n\<close> cells of a buffer, read as a block (\<open>memcpy\<close>, a kernel operand).\<close>

definition rd_block :: "'a buf \<Rightarrow> nat \<Rightarrow> fault + 'a list" where
  "rd_block p n = (case p of Null \<Rightarrow> (if n = 0 then Inr [] else Inl NullDeref)
                     | Dangling \<Rightarrow> Inl UseAfterFree
                     | Buf xs \<Rightarrow> if n \<le> length xs then Inr (take n xs) else Inl OutOfBounds)"

text \<open>Overwriting the first \<open>length ys\<close> cells of a buffer.\<close>

definition wr_block :: "'a buf \<Rightarrow> 'a list \<Rightarrow> fault + 'a buf" where
  "wr_block p ys = (case p of Null \<Rightarrow> (if ys = [] then Inr Null else Inl NullDeref)
                      | Dangling \<Rightarrow> Inl UseAfterFree
                      | Buf xs \<Rightarrow> if length ys \<le> length xs
                                  then Inr (Buf (ys @ drop (length ys) xs)) else Inl OutOfBounds)"

text \<open>
  \<open>algn_malloc\<close> hands out cells that hold nothing yet (\<open>None\<close>); a cell that is
  read before it was written is a fault.
\<close>

definition initialised :: "'a option list \<Rightarrow> fault + 'a list" where
  "initialised xs = (if list_all (\<lambda>x. x \<noteq> None) xs then Inr (map the xs) else Inl Uninitialised)"

text \<open>\<open>for (i = a; i < b; i++) body\<close> is \<open>for_each [a..<b] body\<close>.\<close>

primrec for_each :: "'i list \<Rightarrow> ('i \<Rightarrow> 's \<Rightarrow> fault + 's) \<Rightarrow> 's \<Rightarrow> fault + 's" where
  "for_each [] body s = Inr s"
| "for_each (i # is) body s = bnd (body i s) (for_each is body)"

section \<open>The tensor structure\<close>

text \<open>
  \<open>tensor_t\<close> of \<open>tensor.h\<close> (the header is not part of the sources at hand; the
  fields are the ones \<open>tensor.c\<close> uses): the data entries, the dimensions and the
  number of dimensions. The debug-only dimension names are left out.
\<close>

record tensor_t =
  data :: "complex buf"
  dim :: "nat buf"
  ndim :: int

text \<open>
  Modelled from the spec: \<open>IntProduct\<close> of \<open>util.h\<close>, the product of the first
  \<open>n\<close> entries of an array (the empty product is 1).
\<close>

definition IntProduct :: "nat buf \<Rightarrow> int \<Rightarrow> fault + nat" where
  "IntProduct x n =
     for_each [0..<nat n] (\<lambda>i prod. bnd (rd x i) (\<lambda>d. Inr (prod * d))) 1"

text \<open>
  Modelled from the spec: \<open>NumTensorElements\<close> of \<open>tensor.h\<close>, the number
  \<open>N\<close> of elements of a tensor, the product of its extents (1 at rank 0).
\<close>

definition NumTensorElements :: "tensor_t \<Rightarrow> fault + nat" where
  "NumTensorElements t = IntProduct (dim t) (ndim t)"

subsection \<open>Index arithmetic\<close>

definition IndexToOffset :: "int \<Rightarrow> nat buf \<Rightarrow> nat buf \<Rightarrow> fault + nat" where
  "IndexToOffset n dm index =
     bnd (for_each [0..<nat n]
            (\<lambda>i (offset, dimfac).
               bnd (rd index i) (\<lambda>x.
               bnd (rd dm i) (\<lambda>d. Inr (offset + dimfac * x, dimfac * d))))
            (0, 1))
         (\<lambda>(offset, dimfac). Inr offset)"

primrec NextIndex_from :: "nat list \<Rightarrow> nat buf \<Rightarrow> nat buf \<Rightarrow> fault + nat buf" where
  "NextIndex_from [] dm index = Inr index"
| "NextIndex_from (i # is) dm index =
     bnd (rd index i) (\<lambda>x.
     bnd (wr index i (x + 1)) (\<lambda>index1.
     bnd (rd dm i) (\<lambda>d.
       if x + 1 < d then Inr index1
       else bnd (wr index1 i 0) (\<lambda>index2. NextIndex_from is dm index2))))"

definition NextIndex :: "int \<Rightarrow> nat buf \<Rightarrow> nat buf \<Rightarrow> fault + nat buf" where
  "NextIndex n dm index = NextIndex_from [0..<nat n] dm index"

subsection \<open>Allocation, deletion, move\<close>

text \<open>The largest \<open>size_t\<close>.\<close>

definition SIZE_MAX :: int where
  "SIZE_MAX = 2 ^ 64 - 1"

text \<open>
  Modelled from the spec: the allocator's zero-initialised allocate,
  \<open>zeroed_allocate(count, element_size)\<close>, which may fail. The memory of the model is as
  large as the address space: a request is granted when its byte count is a \<open>size_t\<close>
  and is answered with a null pointer otherwise. A \<open>double complex\<close> takes 16 bytes.
\<close>

definition algn_calloc :: "nat \<Rightarrow> nat \<Rightarrow> complex buf" where
  "algn_calloc n sz =
     (if int n * int sz \<le> SIZE_MAX then Buf (replicate n 0) else Null)"

text \<open>The test \<open>p == NULL\<close>.\<close>

definition is_null :: "'a buf \<Rightarrow> bool" where
  "is_null p = (case p of Null \<Rightarrow> True | Buf xs \<Rightarrow> False | Dangling \<Rightarrow> False)"

definition AllocateTensor :: "int \<Rightarrow> nat buf \<Rightarrow> fault + tensor_t" where
  "AllocateTensor n dm =
     (if \<not> 0 \<le> n then Inl AssertionFailed
      else if 0 < n then
        bnd (rd_block dm (nat n)) (\<lambda>ds.
        bnd (NumTensorElements \<lparr>data = Null, dim = Buf ds, ndim = n\<rparr>) (\<lambda>nelem.
          if \<not> 0 < nelem then Inl AssertionFailed
          else
            let d = algn_calloc nelem 16 in
            if is_null d then Inl AssertionFailed
            else Inr \<lparr>data = d, dim = Buf ds, ndim = n\<rparr>))
      else
        let d = algn_calloc 1 16 in
        if is_null d then Inl AssertionFailed
        else Inr \<lparr>data = d, dim = Null, ndim = 0\<rparr>)"

text \<open>
  Modelled from the spec: the allocator's \<open>free\<close>. It returns what has become of
  the pointer and the number of live buffers it released: a null pointer is accepted
  and releases nothing; releasing a buffer twice is a fault.
\<close>

definition algn_free :: "'a buf \<Rightarrow> fault + ('a buf \<times> nat)" where
  "algn_free p = (case p of Null \<Rightarrow> Inr (Null, 0) | Buf xs \<Rightarrow> Inr (Dangling, 1)
                    | Dangling \<Rightarrow> Inl DoubleFree)"

text \<open>
  \<open>DeleteTensor\<close> returns the tensor as the call leaves it and the number of live
  buffers the call released.
\<close>

definition DeleteTensor :: "tensor_t \<Rightarrow> fault + (tensor_t \<times> nat)" where
  "DeleteTensor t =
     bnd (if 0 < ndim t then algn_free (dim t) else Inr (dim t, 0)) (\<lambda>(dm, k1).
     bnd (algn_free (data t)) (\<lambda>(dt, k2).
       Inr (\<lparr>data = Null, dim = dm, ndim = 0\<rparr>, k1 + k2)))"

text \<open>\<open>MoveTensorData src dst\<close> returns the source and the destination as the call leaves them.\<close>

definition MoveTensorData :: "tensor_t \<Rightarrow> tensor_t \<Rightarrow> tensor_t \<times> tensor_t" where
  "MoveTensorData src dst =
     (let dst1 = dst\<lparr>ndim := ndim src\<rparr>;
          dst2 = dst1\<lparr>dim := dim src\<rparr>;
          src1 = src\<lparr>dim := Null\<rparr>;
          dst3 = dst2\<lparr>data := data src1\<rparr>;
          src2 = src1\<lparr>data := Null\<rparr>
      in (src2, dst3))"

subsection \<open>Identity, reshape, trace\<close>

definition IdentityTensor :: "tensor_t \<Rightarrow> fault + tensor_t" where
  "IdentityTensor t =
     (if \<not> 1 \<le> ndim t then Inl AssertionFailed
      else
        bnd (rd (dim t) 0) (\<lambda>n.
        bnd (for_each [1..<nat (ndim t)]
               (\<lambda>i (stride, dp).
                  bnd (rd (dim t) i) (\<lambda>d.
                    if d \<noteq> n then Inl AssertionFailed
                    else Inr (stride + dp * n, dp * n)))
               (1, 1)) (\<lambda>(stride, dp).
        bnd (NumTensorElements t) (\<lambda>nelem.
          if nelem \<noteq> n * dp then Inl AssertionFailed
          else
            bnd (wr_block (data t) (replicate (n * dp) 0)) (\<lambda>d0.
            bnd (for_each [0..<n] (\<lambda>j d. wr d (j * stride) 1) d0) (\<lambda>d1.
              Inr (t\<lparr>data := d1\<rparr>)))))))"

definition ReshapeTensor :: "int \<Rightarrow> nat buf \<Rightarrow> tensor_t \<Rightarrow> fault + tensor_t" where
  "ReshapeTensor n dm t =
     bnd (IntProduct dm n) (\<lambda>p.
     bnd (NumTensorElements t) (\<lambda>nelem.
       if p \<noteq> nelem then Inl AssertionFailed
       else
         bnd (algn_free (dim t)) (\<lambda>freed.
         bnd (rd_block dm (nat n)) (\<lambda>ds.
           Inr (t\<lparr>ndim := n, dim := Buf ds\<rparr>)))))"

definition TensorTrace :: "tensor_t \<Rightarrow> fault + complex" where
  "TensorTrace t =
     (if \<not> 1 \<le> ndim t then Inl AssertionFailed
      else
        bnd (rd (dim t) 0) (\<lambda>n.
        bnd (for_each [1..<nat (ndim t)]
               (\<lambda>i (stride, dp).
                  bnd (rd (dim t) i) (\<lambda>d.
                    if d \<noteq> n then Inl AssertionFailed
                    else Inr (stride + dp * n, dp * n)))
               (1, 1)) (\<lambda>(stride, dp).
        for_each [0..<n] (\<lambda>j tr. bnd (rd (data t) (j * stride)) (\<lambda>v. Inr (tr + v))) 0)))"

subsection \<open>Generalized transpose\<close>

text \<open>
  The outer loop of \<open>TransposeTensor\<close>, one pass per run of \<open>t->dim[0]\<close> source
  elements. The loop variable \<open>ot\<close> grows by \<open>t->dim[0]\<close>; were that 0 with
  elements left to copy, the loop would never end (\<open>Diverges\<close>).
\<close>

function Transpose_loop ::
  "int list \<Rightarrow> tensor_t \<Rightarrow> tensor_t \<Rightarrow> nat \<Rightarrow> nat \<Rightarrow> nat \<Rightarrow> nat list \<Rightarrow> nat option list
     \<Rightarrow> complex buf \<Rightarrow> fault + complex buf" where
  "Transpose_loop perm t r stride nelem ot index_t index_r rdata =
     (if ot < nelem then
        bnd (for_each [0..<nat (ndim t)]
               (\<lambda>i ir. bnd (rdl perm i) (\<lambda>p. bnd (rdl index_t i) (\<lambda>x. wri ir p (Some x))))
               index_r) (\<lambda>index_r1.
        bnd (initialised index_r1) (\<lambda>ir.
        bnd (IndexToOffset (ndim r) (dim r) (Buf ir)) (\<lambda>or.
        bnd (rd (dim t) 0) (\<lambda>n.
        bnd (for_each [0..<n]
               (\<lambda>j rd1. bnd (rd (data t) (ot + j)) (\<lambda>v. wr rd1 (or + j * stride) v))
               rdata) (\<lambda>rdata1.
        bnd (NextIndex (ndim t - 1) (ptr_add (dim t) 1) (Buf (drop 1 index_t))) (\<lambda>tl.
          if n = 0 then Inl Diverges
          else Transpose_loop perm t r stride nelem (ot + n)
                 (take 1 index_t @ (case tl of Buf xs \<Rightarrow> xs | _ \<Rightarrow> [])) index_r1 rdata1))))))
      else Inr rdata)"
  by pat_completeness auto
termination
  by (relation "measure (\<lambda>(perm, t, r, stride, nelem, ot, index_t, index_r, rdata). nelem - ot)") auto

declare Transpose_loop.simps [simp del]

definition TransposeTensor :: "int list \<Rightarrow> tensor_t \<Rightarrow> fault + tensor_t" where
  "TransposeTensor perm t =
     bnd (for_each [0..<nat (ndim t)]
            (\<lambda>i rdim.
               bnd (rdl perm i) (\<lambda>p.
                 if \<not> (0 \<le> p \<and> p < ndim t) then Inl AssertionFailed
                 else bnd (rd (dim t) i) (\<lambda>d. wri rdim p (Some d))))
            (replicate (nat (ndim t)) None)) (\<lambda>rdim1.
     bnd (initialised rdim1) (\<lambda>rdim.
     bnd (AllocateTensor (ndim t) (Buf rdim)) (\<lambda>r.
     bnd (rdl perm 0) (\<lambda>p0.
     bnd (IntProduct (dim r) p0) (\<lambda>stride.
     bnd (NumTensorElements t) (\<lambda>nelem.
     bnd (Transpose_loop perm t r stride nelem 0 (replicate (nat (ndim t)) 0)
            (replicate (nat (ndim t)) None) (data r)) (\<lambda>rdata.
       Inr (r\<lparr>data := rdata\<rparr>))))))))"

subsection \<open>Dense kernels\<close>

text \<open>
  The kernels are an outside library; their column-major contracts are taken from the
  spec's list of kernel contracts. Every count is a 32-bit signed integer. Outside the
  contract the usual conventions of the kernel interface apply: a vector kernel
  returns at once on a count that is not positive, a matrix kernel rejects a negative
  extent or a leading dimension that is too small (\<open>KernelIllegalArg\<close>). The
  module calls every kernel with unit increments, so increments are not parameters.
\<close>

definition size_t_to_int :: "nat \<Rightarrow> int" where
  "size_t_to_int n = (let m = int n mod 2 ^ 32 in if m < 2 ^ 31 then m else m - 2 ^ 32)"

text \<open>Modelled from the spec: real scalar scale, \<open>x \<leftarrow> \<alpha> x\<close>.\<close>

definition cblas_zdscal :: "int \<Rightarrow> real \<Rightarrow> complex buf \<Rightarrow> fault + complex buf" where
  "cblas_zdscal n alpha x =
     (if n \<le> 0 then Inr x
      else bnd (rd_block x (nat n)) (\<lambda>xs. wr_block x (map (\<lambda>v. of_real alpha * v) xs)))"

text \<open>Modelled from the spec: AXPY, \<open>y \<leftarrow> \<alpha> x + y\<close>.\<close>

definition cblas_zaxpy :: "int \<Rightarrow> complex \<Rightarrow> complex buf \<Rightarrow> complex buf \<Rightarrow> fault + complex buf" where
  "cblas_zaxpy n alpha x y =
     (if n \<le> 0 then Inr y
      else
        bnd (rd_block x (nat n)) (\<lambda>xs.
        bnd (rd_block y (nat n)) (\<lambda>ys.
          wr_block y (map (\<lambda>i. alpha * xs ! i + ys ! i) [0..<nat n]))))"

text \<open>Modelled from the spec: unconjugated dot, \<open>\<Sum> x\<^sub>i y\<^sub>i\<close>.\<close>

definition cblas_zdotu_sub :: "int \<Rightarrow> complex buf \<Rightarrow> complex buf \<Rightarrow> fault + complex" where
  "cblas_zdotu_sub n x y =
     (if n \<le> 0 then Inr 0
      else
        bnd (rd_block x (nat n)) (\<lambda>xs.
        bnd (rd_block y (nat n)) (\<lambda>ys.
          Inr (\<Sum>i<nat n. xs ! i * ys ! i))))"

datatype CBLAS_TRANSPOSE = CblasNoTrans | CblasTrans

text \<open>
  Modelled from the spec: matrix-vector multiply, \<open>y \<leftarrow> \<alpha> A x + \<beta> y\<close> or
  \<open>y \<leftarrow> \<alpha> A\<^sup>T x + \<beta> y\<close>, \<open>A\<close> an \<open>M \<times> N\<close> column-major matrix.
\<close>

definition cblas_zgemv ::
  "CBLAS_TRANSPOSE \<Rightarrow> int \<Rightarrow> int \<Rightarrow> complex \<Rightarrow> complex buf \<Rightarrow> int \<Rightarrow> complex buf \<Rightarrow> complex
     \<Rightarrow> complex buf \<Rightarrow> fault + complex buf" where
  "cblas_zgemv tr M N alpha A lda X beta Y =
     (if M < 0 \<or> N < 0 \<or> lda < max 1 M then Inl KernelIllegalArg
      else if M = 0 \<or> N = 0 then Inr Y
      else
        (let lenx = (case tr of CblasNoTrans \<Rightarrow> nat N | CblasTrans \<Rightarrow> nat M);
             leny = (case tr of CblasNoTrans \<Rightarrow> nat M | CblasTrans \<Rightarrow> nat N)
         in
           bnd (rd_block A (nat (lda * (N - 1) + M))) (\<lambda>a.
           bnd (rd_block X lenx) (\<lambda>x.
           bnd (rd_block Y leny) (\<lambda>y.
             wr_block Y
               (map (\<lambda>i. alpha * (\<Sum>j<lenx.
                              (case tr of CblasNoTrans \<Rightarrow> a ! (i + nat lda * j)
                                 | CblasTrans \<Rightarrow> a ! (j + nat lda * i)) * x ! j)
                          + beta * y ! i)
                  [0..<leny]))))))"

text \<open>
  Modelled from the spec: matrix-matrix multiply with no transpose on both operands,
  \<open>C \<leftarrow> \<alpha> A B + \<beta> C\<close>, \<open>A\<close> of shape \<open>M \<times> K\<close>, \<open>B\<close> of shape \<open>K \<times> N\<close>.
\<close>

definition cblas_zgemm ::
  "int \<Rightarrow> int \<Rightarrow> int \<Rightarrow> complex \<Rightarrow> complex buf \<Rightarrow> int \<Rightarrow> complex buf \<Rightarrow> int \<Rightarrow> complex
     \<Rightarrow> complex buf \<Rightarrow> int \<Rightarrow> fault + complex buf" where
  "cblas_zgemm M N K alpha A lda B ldb beta C ldc =
     (if M < 0 \<or> N < 0 \<or> K < 0 \<or> lda < max 1 M \<or> ldb < max 1 K \<or> ldc < max 1 M
      then Inl KernelIllegalArg
      else if M = 0 \<or> N = 0 then Inr C
      else
        bnd (rd_block A (nat (lda * (K - 1) + M))) (\<lambda>a.
        bnd (rd_block B (nat (ldb * (N - 1) + K))) (\<lambda>b.
        bnd (rd_block C (nat (ldc * (N - 1) + M))) (\<lambda>c.
          wr_block C
            (map (\<lambda>p. if p mod nat ldc < nat M
                       then alpha * (\<Sum>l<nat K. a ! (p mod nat ldc + nat lda * l)
                                                 * b ! (l + nat ldb * (p div nat ldc)))
                            + beta * c ! p
                       else c ! p)
               [0..<length c])))))"

text \<open>Modelled from the spec: rank-1 outer product update, \<open>A \<leftarrow> \<alpha> x y\<^sup>T + A\<close>.\<close>

definition cblas_zgeru ::
  "int \<Rightarrow> int \<Rightarrow> complex \<Rightarrow> complex buf \<Rightarrow> complex buf \<Rightarrow> complex buf \<Rightarrow> int
     \<Rightarrow> fault + complex buf" where
  "cblas_zgeru M N alpha X Y A lda =
     (if M < 0 \<or> N < 0 \<or> lda < max 1 M then Inl KernelIllegalArg
      else if M = 0 \<or> N = 0 then Inr A
      else
        bnd (rd_block X (nat M)) (\<lambda>x.
        bnd (rd_block Y (nat N)) (\<lambda>y.
        bnd (rd_block A (nat (lda * (N - 1) + M))) (\<lambda>a.
          wr_block A
            (map (\<lambda>p. if p mod nat lda < nat M
                       then alpha * x ! (p mod nat lda) * y ! (p div nat lda) + a ! p
                       else a ! p)
               [0..<length a])))))"

subsection \<open>Scaling, AXPY, contraction, Kronecker product\<close>

definition ScaleTensor :: "real \<Rightarrow> tensor_t \<Rightarrow> fault + tensor_t" where
  "ScaleTensor alpha t =
     bnd (NumTensorElements t) (\<lambda>nelem.
     bnd (cblas_zdscal (size_t_to_int nelem) alpha (data t)) (\<lambda>d.
       Inr (t\<lparr>data := d\<rparr>)))"

definition ScalarMultiplyAddTensor :: "complex \<Rightarrow> tensor_t \<Rightarrow> tensor_t \<Rightarrow> fault + tensor_t" where
  "ScalarMultiplyAddTensor alpha s t =
     bnd (NumTensorElements s) (\<lambda>nelem.
       if ndim s \<noteq> ndim t then Inl AssertionFailed
       else
         bnd (NumTensorElements t) (\<lambda>nelemT.
           if nelem \<noteq> nelemT then Inl AssertionFailed
           else
             bnd (cblas_zaxpy (size_t_to_int nelem) alpha (data s) (data t)) (\<lambda>d.
               Inr (t\<lparr>data := d\<rparr>))))"

definition MultiplyTensor :: "tensor_t \<Rightarrow> tensor_t \<Rightarrow> int \<Rightarrow> fault + tensor_t" where
  "MultiplyTensor s t ndim_mult =
     (if \<not> 1 \<le> ndim_mult then Inl AssertionFailed
      else if \<not> (ndim_mult \<le> ndim s \<and> ndim_mult \<le> ndim t) then Inl AssertionFailed
      else
        bnd (for_each [0..<nat ndim_mult]
               (\<lambda>i u. bnd (rd (dim s) (nat (ndim s - ndim_mult + int i))) (\<lambda>a.
                        bnd (rd (dim t) i) (\<lambda>b.
                          if a \<noteq> b then Inl AssertionFailed else Inr u)))
               ()) (\<lambda>u.
        bnd (for_each [0..<nat (ndim s - ndim_mult)]
               (\<lambda>i rdim. bnd (rd (dim s) i) (\<lambda>d. wrl rdim i (Some d)))
               (replicate (nat (ndim s + ndim t - 2 * ndim_mult)) None)) (\<lambda>rdim1.
        bnd (for_each [nat ndim_mult..<nat (ndim t)]
               (\<lambda>i rdim. bnd (rd (dim t) i) (\<lambda>d.
                            wri rdim (ndim s + int i - 2 * ndim_mult) (Some d)))
               rdim1) (\<lambda>rdim2.
        bnd (initialised rdim2) (\<lambda>rdim.
        bnd (AllocateTensor (ndim s + ndim t - 2 * ndim_mult) (Buf rdim)) (\<lambda>r.
        bnd (NumTensorElements s) (\<lambda>nelemS.
        bnd (NumTensorElements t) (\<lambda>nelemT.
        bnd (IntProduct (ptr_add (dim s) (nat (ndim s - ndim_mult))) ndim_mult) (\<lambda>k.
          if k = 0 then Inl DivisionByZero
          else
            (let lds = nelemS div k in
             if \<not> 0 < lds then Inl AssertionFailed
             else
               bnd (IntProduct (dim t) ndim_mult) (\<lambda>ldt.
                 if \<not> 0 < ldt then Inl AssertionFailed
                 else
                   (let tdt = nelemT div ldt in
                    if lds = 1 then
                      (if tdt = 1 then
                         (if nelemS \<noteq> nelemT then Inl AssertionFailed
                          else
                            bnd (NumTensorElements r) (\<lambda>nelemR.
                              if nelemR \<noteq> 1 then Inl AssertionFailed
                              else
                                bnd (cblas_zdotu_sub (size_t_to_int nelemS) (data s) (data t)) (\<lambda>v.
                                bnd (wr (data r) 0 v) (\<lambda>d. Inr (r\<lparr>data := d\<rparr>)))))
                       else
                         bnd (cblas_zgemv CblasTrans (size_t_to_int ldt) (size_t_to_int tdt) 1
                                (data t) (size_t_to_int ldt) (data s) 0 (data r)) (\<lambda>d.
                           Inr (r\<lparr>data := d\<rparr>)))
                    else
                      (if tdt = 1 then
                         bnd (cblas_zgemv CblasNoTrans (size_t_to_int lds) (size_t_to_int ldt) 1
                                (data s) (size_t_to_int lds) (data t) 0 (data r)) (\<lambda>d.
                           Inr (r\<lparr>data := d\<rparr>))
                       else
                         bnd (cblas_zgemm (size_t_to_int lds) (size_t_to_int tdt) (size_t_to_int ldt) 1
                                (data s) (size_t_to_int lds) (data t) (size_t_to_int ldt) 0
                                (data r) (size_t_to_int lds)) (\<lambda>d.
                           Inr (r\<lparr>data := d\<rparr>)))))))))))))))"

definition TensorKroneckerProduct :: "tensor_t \<Rightarrow> tensor_t \<Rightarrow> fault + tensor_t" where
  "TensorKroneckerProduct s t =
     (if ndim s \<noteq> ndim t then Inl AssertionFailed
      else
        bnd (for_each [0..<nat (ndim s)]
               (\<lambda>i udim. bnd (rd (dim s) i) (\<lambda>d. wrl udim i (Some d)))
               (replicate (nat (ndim s + ndim t)) None)) (\<lambda>udim1.
        bnd (for_each [0..<nat (ndim t)]
               (\<lambda>i udim. bnd (rd (dim t) i) (\<lambda>d. wri udim (ndim s + int i) (Some d)))
               udim1) (\<lambda>udim2.
        bnd (initialised udim2) (\<lambda>udim.
        bnd (AllocateTensor (ndim s + ndim t) (Buf udim)) (\<lambda>u.
        bnd (NumTensorElements s) (\<lambda>m.
        bnd (NumTensorElements t) (\<lambda>n.
        bnd (NumTensorElements u) (\<lambda>nelemU.
          if nelemU \<noteq> m * n then Inl AssertionFailed
          else
            bnd (cblas_zgeru (size_t_to_int m) (size_t_to_int n) 1 (data s) (data t) (data u)
                   (size_t_to_int m)) (\<lambda>udata.
            bnd (for_each [0..<nat (ndim s)]
                   (\<lambda>i perm. wrl perm i (Some (2 * int i)))
                   (replicate (nat (ndim s + ndim t)) None)) (\<lambda>perm1.
            bnd (for_each [0..<nat (ndim t)]
                   (\<lambda>i perm. wri perm (ndim s + int i) (Some (2 * int i + 1)))
                   perm1) (\<lambda>perm2.
            bnd (initialised perm2) (\<lambda>perm.
            bnd (TransposeTensor perm (u\<lparr>data := udata\<rparr>)) (\<lambda>r.
            bnd (DeleteTensor (u\<lparr>data := udata\<rparr>)) (\<lambda>deleted.
            bnd (for_each [0..<nat (ndim s)]
                   (\<lambda>i rdim.
                      bnd (rd (dim s) i) (\<lambda>a.
                      bnd (rd (dim t) i) (\<lambda>b.
                      bnd (wrl rdim i (Some (a * b))) (\<lambda>rdim1.
                      bnd (rd (dim r) (2 * i)) (\<lambda>c.
                      bnd (rd (dim r) (2 * i + 1)) (\<lambda>d.
                        if a * b \<noteq> c * d then Inl AssertionFailed else Inr rdim1))))))
                   (replicate (nat (ndim s)) None)) (\<lambda>rdim1.
            bnd (initialised rdim1) (\<lambda>rdim.
              ReshapeTensor (ndim s) (Buf rdim) r))))))))))))))))"

section \<open>Shapes, indices and well-formed tensors\<close>

definition dims_of :: "tensor_t \<Rightarrow> nat list" where
  "dims_of t = (case dim t of Buf ds \<Rightarrow> ds | Null \<Rightarrow> [] | Dangling \<Rightarrow> [])"

definition elems :: "tensor_t \<Rightarrow> complex list" where
  "elems t = (case data t of Buf xs \<Rightarrow> xs | Null \<Rightarrow> [] | Dangling \<Rightarrow> [])"

text \<open>
  The data model of the module: \<open>ndim\<close> extents, each strictly positive, held in a
  live buffer (no buffer is needed at rank 0, where \<open>AllocateTensor\<close> leaves the
  pointer null), and a live data buffer with one entry per multi-index. The data buffer
  is an object in memory: its size in bytes, 16 per element, is a \<open>size_t\<close>.
\<close>

definition wf_tensor :: "tensor_t \<Rightarrow> bool" where
  "wf_tensor t \<longleftrightarrow>
     (case data t of Buf xs \<Rightarrow> True | Null \<Rightarrow> False | Dangling \<Rightarrow> False)
     \<and> (case dim t of Buf ds \<Rightarrow> True | Null \<Rightarrow> ndim t = 0 | Dangling \<Rightarrow> False)
     \<and> ndim t = int (length (dims_of t))
     \<and> list_all (\<lambda>d. 0 < d) (dims_of t)
     \<and> length (elems t) = prod_list (dims_of t)
     \<and> int (length (elems t)) * 16 \<le> SIZE_MAX"

text \<open>Column-major offset of a multi-index: \<open>\<Sum>\<^sub>k i\<^sub>k \<Prod>\<^sub>j\<^sub><\<^sub>k d\<^sub>j\<close>.\<close>

fun offs :: "nat list \<Rightarrow> nat list \<Rightarrow> nat" where
  "offs (d # ds) (i # is) = i + d * offs ds is"
| "offs [] is = 0"
| "offs ds [] = 0"

text \<open>The multi-index of an offset.\<close>

fun idx_of :: "nat list \<Rightarrow> nat \<Rightarrow> nat list" where
  "idx_of [] k = []"
| "idx_of (d # ds) k = (k mod d) # idx_of ds (k div d)"

definition valid_index :: "nat list \<Rightarrow> nat list \<Rightarrow> bool" where
  "valid_index ds is \<longleftrightarrow> list_all2 (\<lambda>i d. i < d) is ds"

text \<open>\<open>perm\<close> is a permutation of \<open>{0, ..., n - 1}\<close>.\<close>

definition perm_ok :: "int list \<Rightarrow> nat \<Rightarrow> bool" where
  "perm_ok perm n \<longleftrightarrow>
     length perm = n \<and> distinct perm \<and> list_all (\<lambda>p. 0 \<le> p \<and> p < int n) perm"

text \<open>\<open>gather perm js\<close> is the multi-index \<open>i\<close> with \<open>i[k] = js[perm[k]]\<close>.\<close>

definition gather :: "int list \<Rightarrow> 'a list \<Rightarrow> 'a list" where
  "gather perm js = map (\<lambda>p. js ! nat p) perm"

text \<open>The inverse permutation: entry \<open>j\<close> is the position of \<open>j\<close> in \<open>perm\<close>.\<close>

definition inv_perm :: "int list \<Rightarrow> int list" where
  "inv_perm perm = map (\<lambda>j. int (length (takeWhile (\<lambda>p. p \<noteq> int j) perm))) [0..<length perm]"

text \<open>
  The transpose as a function on shapes and flat data: the entry at offset \<open>k\<close> of the
  result, whose multi-index is \<open>js\<close>, is the entry of the source at the multi-index
  \<open>i\<close> with \<open>i[k] = js[perm[k]]\<close>.
\<close>

definition transpose_dims :: "int list \<Rightarrow> nat list \<Rightarrow> nat list" where
  "transpose_dims perm ds = gather (inv_perm perm) ds"

definition transpose_data :: "int list \<Rightarrow> nat list \<Rightarrow> complex list \<Rightarrow> complex list" where
  "transpose_data perm ds xs =
     map (\<lambda>k. xs ! offs ds (gather perm (idx_of (transpose_dims perm ds) k)))
       [0..<prod_list ds]"

text \<open>
  The offset in the result at which \<open>TransposeTensor\<close> stores the source entry of
  offset \<open>k\<close>.
\<close>

definition transpose_offset :: "int list \<Rightarrow> nat list \<Rightarrow> nat \<Rightarrow> nat" where
  "transpose_offset perm ds k =
     offs (transpose_dims perm ds) (gather (inv_perm perm) (idx_of ds k))"

text \<open>
  The matrix views of a contraction of the last \<open>m\<close> axes of \<open>s\<close> with the first \<open>m\<close>
  axes of \<open>t\<close>: the kept leading extents of \<open>s\<close>, the shared extents, the kept
  trailing extents of \<open>t\<close>. Their products are the spec's \<open>LDS\<close>, \<open>K\<close> and \<open>TDT\<close>.
\<close>

definition kept_s :: "tensor_t \<Rightarrow> int \<Rightarrow> nat list" where
  "kept_s s m = take (length (dims_of s) - nat m) (dims_of s)"

definition shared_t :: "tensor_t \<Rightarrow> int \<Rightarrow> nat list" where
  "shared_t t m = take (nat m) (dims_of t)"

definition kept_t :: "tensor_t \<Rightarrow> int \<Rightarrow> nat list" where
  "kept_t t m = drop (nat m) (dims_of t)"

text \<open>
  The contraction as the spec defines it: the column-major product of \<open>S\<close> viewed as an
  \<open>lds \<times> k\<close> matrix and \<open>T\<close> viewed as a \<open>k \<times> tdt\<close> matrix.
\<close>

definition contract_data :: "nat \<Rightarrow> nat \<Rightarrow> nat \<Rightarrow> complex list \<Rightarrow> complex list \<Rightarrow> complex list" where
  "contract_data lds k tdt xs ys =
     map (\<lambda>p. \<Sum>b<k. xs ! (p mod lds + lds * b) * ys ! (b + k * (p div lds))) [0..<lds * tdt]"

text \<open>The unconjugated bilinear sum \<open>\<Sum>\<^sub>k x\<^sub>k y\<^sub>k\<close> of the spec.\<close>

definition dotu :: "complex list \<Rightarrow> complex list \<Rightarrow> complex" where
  "dotu xs ys = (\<Sum>k<length xs. xs ! k * ys ! k)"

text \<open>
  The Kronecker product goes through the rank-\<open>2n\<close> outer product and the permutation
  \<open>perm[k] = 2k\<close>, \<open>perm[n + k] = 2k + 1\<close>, which puts axis \<open>k\<close> of \<open>S\<close> and axis \<open>k\<close> of \<open>T\<close>
  side by side. \<open>interleave\<close> is the resulting order of the axes, \<open>outer_data\<close> the
  column-major data of \<open>U[i, j] = S[i] T[j]\<close>.
\<close>

fun interleave :: "'a list \<Rightarrow> 'a list \<Rightarrow> 'a list" where
  "interleave (x # xs) (y # ys) = x # y # interleave xs ys"
| "interleave [] ys = []"
| "interleave xs [] = []"

text \<open>The cells of a live buffer.\<close>

definition buf_list :: "'a buf \<Rightarrow> 'a list" where
  "buf_list p = (case p of Buf xs \<Rightarrow> xs | Null \<Rightarrow> [] | Dangling \<Rightarrow> [])"

definition kron_perm :: "nat \<Rightarrow> int list" where
  "kron_perm n = map (\<lambda>k. 2 * int k) [0..<n] @ map (\<lambda>k. 2 * int k + 1) [0..<n]"

definition outer_data :: "complex list \<Rightarrow> complex list \<Rightarrow> complex list" where
  "outer_data xs ys = map (\<lambda>p. xs ! (p mod length xs) * ys ! (p div length xs))
                        [0..<length xs * length ys]"

section \<open>Lifecycle properties\<close>

lemma algn_free_Null: "algn_free Null = Inr (Null, 0)"
  by (simp add: algn_free_def)

text \<open>
  C6, as the code has it. \<open>MoveTensorData\<close> hands the rank, the dimension vector and
  the data buffer of the source to the destination and nulls the two pointers of the
  source. The \<open>ndim\<close> field of the source is left as it was; the source can still be
  deleted, and deleting it releases no buffer.
\<close>

theorem MoveTensorData_transfers:
  "ndim (snd (MoveTensorData src dst)) = ndim src
   \<and> dim (snd (MoveTensorData src dst)) = dim src
   \<and> data (snd (MoveTensorData src dst)) = data src
   \<and> ndim (fst (MoveTensorData src dst)) = ndim src
   \<and> dim (fst (MoveTensorData src dst)) = Null
   \<and> data (fst (MoveTensorData src dst)) = Null
   \<and> DeleteTensor (fst (MoveTensorData src dst)) = Inr (\<lparr>data = Null, dim = Null, ndim = 0\<rparr>, 0)"
  by (simp add: MoveTensorData_def DeleteTensor_def algn_free_Null)

text \<open>
  C6 as the spec words it fails: after moving a rank-1 tensor the source still holds
  rank 1, not rank 0.
\<close>

theorem MoveTensorData_source_rank_kept:
  "ndim (fst (MoveTensorData \<lparr>data = Buf [1, 2], dim = Buf [2], ndim = 1\<rparr>
                             \<lparr>data = Null, dim = Null, ndim = 0\<rparr>)) \<noteq> 0"
  by (simp add: MoveTensorData_def)

section \<open>Reads, writes and loops\<close>


lemma rd_Buf [simp]: "rd (Buf xs) i = (if i < length xs then Inr (xs ! i) else Inl OutOfBounds)"
  by (simp add: rd_def rdl_def)

lemma wr_Buf [simp]: "wr (Buf xs) i v = (if i < length xs then Inr (Buf (xs[i := v])) else Inl OutOfBounds)"
  by (simp add: wr_def wrl_def)

lemma rd_block_Buf [simp]:
  "rd_block (Buf xs) n = (if n \<le> length xs then Inr (take n xs) else Inl OutOfBounds)"
  by (simp add: rd_block_def)

lemma wr_block_Buf [simp]:
  "wr_block (Buf xs) ys = (if length ys \<le> length xs then Inr (Buf (ys @ drop (length ys) xs)) else Inl OutOfBounds)"
  by (simp add: wr_block_def)

lemma for_each_append:
  "for_each (xs @ ys) body s = bnd (for_each xs body s) (for_each ys body)"
  by (induction xs arbitrary: s) (auto split: sum.splits)

lemma for_each_upt_inv:
  assumes "a \<le> b" and "P a s"
    and "\<And>i s. a \<le> i \<Longrightarrow> i < b \<Longrightarrow> P i s \<Longrightarrow> \<exists>s'. body i s = Inr s' \<and> P (Suc i) s'"
  shows "\<exists>s'. for_each [a..<b] body s = Inr s' \<and> P b s'"
  using assms(1,3)
proof (induction b)
  case 0
  then show ?case using assms(2) by simp
next
  case (Suc b)
  show ?case
  proof (cases "a = Suc b")
    case True
    then show ?thesis using assms(2) by simp
  next
    case False
    then have ab: "a \<le> b" using Suc.prems(1) by simp
    have "\<exists>s'. for_each [a..<b] body s = Inr s' \<and> P b s'"
      using Suc.IH[OF ab] Suc.prems(2) by (meson less_Suc_eq)
    then obtain s1 where s1: "for_each [a..<b] body s = Inr s1" "P b s1" by blast
    obtain s2 where s2: "body b s1 = Inr s2" "P (Suc b) s2"
      using Suc.prems(2)[OF ab _ s1(2)] by auto
    show ?thesis using ab s1 s2 by (simp add: for_each_append)
  qed
qed


lemma wf_tensorE:
  assumes "wf_tensor t"
  obtains xs where "data t = Buf xs" and "elems t = xs" and "length xs = prod_list (dims_of t)"
    and "ndim t = int (length (dims_of t))" and "\<forall>d\<in>set (dims_of t). 0 < d"
    and "dim t = Buf (dims_of t) \<or> (dim t = Null \<and> dims_of t = [])"
  using assms
  by (auto simp: wf_tensor_def dims_of_def elems_def list_all_iff split: buf.splits)

lemma wf_tensor_fits: "wf_tensor t \<Longrightarrow> int (prod_list (dims_of t)) * 16 \<le> SIZE_MAX"
  by (simp add: wf_tensor_def)

lemma algn_calloc_Buf:
  "int n * 16 \<le> SIZE_MAX \<Longrightarrow> algn_calloc n 16 = Buf (replicate n 0)"
  by (simp add: algn_calloc_def)

lemma algn_calloc_Null: "\<not> int n * 16 \<le> SIZE_MAX \<Longrightarrow> algn_calloc n 16 = Null"
  by (simp add: algn_calloc_def)

lemma is_null_simps [simp]: "is_null Null" "\<not> is_null (Buf xs)" "\<not> is_null Dangling"
  by (simp_all add: is_null_def)

lemma AllocateTensor_scalar:
  "AllocateTensor 0 (Buf []) = Inr \<lparr>data = Buf [0], dim = Null, ndim = 0\<rparr>"
  by (simp add: AllocateTensor_def algn_calloc_def SIZE_MAX_def)

lemma wf_dim_Buf: "wf_tensor t \<Longrightarrow> 1 \<le> ndim t \<Longrightarrow> dim t = Buf (dims_of t)"
  by (auto simp: wf_tensor_def dims_of_def split: buf.splits)

lemma IntProduct_Buf:
  assumes "nat n \<le> length ds"
  shows "IntProduct (Buf ds) n = Inr (prod_list (take (nat n) ds))"
proof -
  have "\<exists>s'. for_each [0..<nat n] (\<lambda>i prod. bnd (rd (Buf ds) i) (\<lambda>d. Inr (prod * d))) 1 = Inr s'
          \<and> s' = prod_list (take (nat n) ds)"
  proof (rule for_each_upt_inv[where P = "\<lambda>i s. s = prod_list (take i ds)"])
    fix i s assume "i < nat n" "s = prod_list (take i ds)"
    then show "\<exists>s'. bnd (rd (Buf ds) i) (\<lambda>d. Inr (s * d)) = Inr s' \<and> s' = prod_list (take (Suc i) ds)"
      using assms by (simp add: take_Suc_conv_app_nth)
  qed simp_all
  then show ?thesis by (simp add: IntProduct_def)
qed

lemma IntProduct_zero: "n \<le> 0 \<Longrightarrow> IntProduct p n = Inr 1"
  by (simp add: IntProduct_def)

lemma NumTensorElements_wf:
  assumes "wf_tensor t"
  shows "NumTensorElements t = Inr (prod_list (dims_of t))"
  using assms
  by (auto elim!: wf_tensorE simp: NumTensorElements_def IntProduct_Buf IntProduct_zero)


lemma valid_index_iff:
  "valid_index ds is \<longleftrightarrow> length is = length ds \<and> (\<forall>k<length ds. is ! k < ds ! k)"
  by (auto simp: valid_index_def list_all2_conv_all_nth)

lemma valid_index_Cons [simp]:
  "valid_index (d # ds) (i # is) \<longleftrightarrow> i < d \<and> valid_index ds is"
  by (simp add: valid_index_def)

lemma valid_index_Nil [simp]: "valid_index [] is \<longleftrightarrow> is = []"
  by (simp add: valid_index_def)

lemma valid_index_Cons_left:
  "valid_index (d # ds) js \<longleftrightarrow> (\<exists>i is. js = i # is \<and> i < d \<and> valid_index ds is)"
  by (cases js) (simp_all add: valid_index_def)

lemma offs_less: "valid_index ds is \<Longrightarrow> offs ds is < prod_list ds"
proof (induction ds "is" rule: offs.induct)
  case (1 d ds i "is")
  then have a: "i < d" and b: "offs ds is < prod_list ds" by simp_all
  have "i + d * offs ds is < d + d * offs ds is" using a by simp
  also have "\<dots> = d * Suc (offs ds is)" by simp
  also have "\<dots> \<le> d * prod_list ds" using b by (intro mult_le_mono2) simp
  finally show ?case by simp
qed (simp_all add: valid_index_def)

lemma idx_of_offs: "valid_index ds is \<Longrightarrow> idx_of ds (offs ds is) = is"
  by (induction ds "is" rule: offs.induct) (simp_all add: valid_index_def)

lemma offs_idx_of: "k < prod_list ds \<Longrightarrow> offs ds (idx_of ds k) = k"
proof (induction ds arbitrary: k)
  case Nil
  then show ?case by simp
next
  case (Cons d ds)
  then have "0 < d" by (cases d) simp_all
  have "k div d < prod_list ds"
    using Cons.prems by (simp add: less_mult_imp_div_less mult.commute)
  then show ?case using Cons.IH by simp
qed

lemma valid_idx_of: "k < prod_list ds \<Longrightarrow> valid_index ds (idx_of ds k)"
proof (induction ds arbitrary: k)
  case Nil
  then show ?case by simp
next
  case (Cons d ds)
  then have "0 < d" by (cases d) simp_all
  have "k div d < prod_list ds"
    using Cons.prems by (simp add: less_mult_imp_div_less mult.commute)
  then show ?case using Cons.IH \<open>0 < d\<close> by simp
qed

lemma length_idx_of [simp]: "length (idx_of ds k) = length ds"
  by (induction ds arbitrary: k) simp_all

lemma offs_inj:
  "valid_index ds is \<Longrightarrow> valid_index ds js \<Longrightarrow> offs ds is = offs ds js \<Longrightarrow> is = js"
  by (metis idx_of_offs)


lemma geometric_nat: "0 < n \<Longrightarrow> (n - 1) * (\<Sum>k<r. n ^ k) + 1 = (n::nat) ^ r"
proof (induction r)
  case 0
  then show ?case by simp
next
  case (Suc r)
  have "(n - 1) * (\<Sum>k<Suc r. n ^ k) + 1 = ((n - 1) * (\<Sum>k<r. n ^ k) + 1) + (n - 1) * n ^ r"
    by (simp add: distrib_left)
  also have "\<dots> = n ^ r + (n - 1) * n ^ r" using Suc by simp
  also have "\<dots> = (1 + (n - 1)) * n ^ r" by (simp only: distrib_right mult_1)
  also have "\<dots> = n ^ Suc r" using Suc.prems by simp
  finally show ?case .
qed

lemma diag_offset_less:
  assumes "j < n"
  shows "j * (\<Sum>k<r. n ^ k) < (n::nat) ^ r"
proof -
  have "0 < n" using assms by simp
  have "j * (\<Sum>k<r. n ^ k) \<le> (n - 1) * (\<Sum>k<r. n ^ k)"
    using assms by (intro mult_le_mono1) simp
  also have "\<dots> < n ^ r" using geometric_nat[OF \<open>0 < n\<close>, of r] by simp
  finally show ?thesis .
qed

lemma offs_diag: "offs (replicate r n) (replicate r j) = j * (\<Sum>k<r. n ^ k)"
proof (induction r)
  case 0
  then show ?case by simp
next
  case (Suc r)
  have S: "(\<Sum>k<Suc r. n ^ k) = 1 + n * (\<Sum>k<r. n ^ k)"
    by (simp add: sum.lessThan_Suc_shift sum_distrib_left del: sum.lessThan_Suc)
  have "offs (replicate (Suc r) n) (replicate (Suc r) j) = j + n * (j * (\<Sum>k<r. n ^ k))"
    using Suc by simp
  also have "\<dots> = j * (1 + n * (\<Sum>k<r. n ^ k))" by (simp add: algebra_simps)
  finally show ?case by (simp only: S)
qed

lemma valid_index_replicate: "j < n \<Longrightarrow> valid_index (replicate r n) (replicate r j)"
  by (simp add: valid_index_iff)

lemma stride_loop:
  fixes ds :: "nat list"
  assumes "length ds = r" and "1 \<le> r" and "\<forall>d\<in>set ds. d = n"
  shows "for_each [1..<r]
           (\<lambda>i (stride, dp). bnd (rd (Buf ds) i) (\<lambda>d.
              if d \<noteq> n then Inl AssertionFailed else Inr (stride + dp * n, dp * n)))
           (1, 1) = Inr (\<Sum>k<r. n ^ k, n ^ (r - 1))"
proof -
  let ?body = "\<lambda>i (stride, dp). bnd (rd (Buf ds) i) (\<lambda>d.
              if d \<noteq> n then Inl AssertionFailed else Inr (stride + dp * n, dp * n))"
  have "\<exists>s'. for_each [1..<r] ?body (1, 1) = Inr s' \<and> s' = (\<Sum>k<r. n ^ k, n ^ (r - 1))"
  proof (rule for_each_upt_inv[where P = "\<lambda>i s. s = (\<Sum>k<i. n ^ k, n ^ (i - 1))"])
    fix i s
    assume i: "1 \<le> i" "i < r" and s: "s = (\<Sum>k<i. n ^ k, n ^ (i - 1))"
    have "ds ! i = n" using assms(1,3) i by simp
    moreover have "n ^ (i - 1) * n = n ^ i" using i by (cases i) (simp_all add: mult.commute)
    ultimately show "\<exists>s'. ?body i s = Inr s' \<and> s' = (\<Sum>k<Suc i. n ^ k, n ^ (Suc i - 1))"
      using assms(1) i s by simp
  qed (use assms in simp_all)
  then show ?thesis by simp
qed

lemma diag_write_loop:
  fixes zs :: "complex list"
  assumes "length zs = n ^ r" and "\<forall>k<n ^ r. zs ! k = 0"
  shows "\<exists>ys. for_each [0..<n] (\<lambda>j d. wr d (j * (\<Sum>k<r. n ^ k)) 1) (Buf zs) = Inr (Buf ys)
           \<and> length ys = n ^ r
           \<and> (\<forall>k<n ^ r. ys ! k = (if \<exists>j<n. k = j * (\<Sum>k<r. n ^ k) then 1 else 0))"
proof -
  let ?s = "\<Sum>k<r. n ^ k"
  let ?P = "\<lambda>i d. \<exists>ys. d = Buf ys \<and> length ys = n ^ r
              \<and> (\<forall>k<n ^ r. ys ! k = (if \<exists>j<i. k = j * ?s then 1 else 0))"
  have "\<exists>s'. for_each [0..<n] (\<lambda>j d. wr d (j * ?s) 1) (Buf zs) = Inr s' \<and> ?P n s'"
  proof (rule for_each_upt_inv[where P = ?P])
    show "?P 0 (Buf zs)" using assms by simp
  next
    fix i d
    assume i: "i < n" and "?P i d"
    then obtain ys where ys: "d = Buf ys" "length ys = n ^ r"
      "\<forall>k<n ^ r. ys ! k = (if \<exists>j<i. k = j * ?s then 1 else 0)" by blast
    have lt: "i * ?s < n ^ r" using diag_offset_less[OF i] .
    have "\<forall>k<n ^ r. ys[i * ?s := 1] ! k = (if \<exists>j<Suc i. k = j * ?s then 1 else 0)"
    proof (intro allI impI)
      fix k assume k: "k < n ^ r"
      show "ys[i * ?s := 1] ! k = (if \<exists>j<Suc i. k = j * ?s then 1 else 0)"
      proof (cases "k = i * ?s")
        case True
        then show ?thesis using lt ys(2) by auto
      next
        case False
        then have "(\<exists>j<Suc i. k = j * ?s) \<longleftrightarrow> (\<exists>j<i. k = j * ?s)"
          by (auto simp: less_Suc_eq)
        then show ?thesis using False ys(3) k by simp
      qed
    qed
    then show "\<exists>s'. wr d (i * ?s) 1 = Inr s' \<and> ?P (Suc i) s'"
      using ys lt by simp
  qed simp
  then show ?thesis by blast
qed

lemma trace_loop:
  fixes ys :: "complex list"
  assumes "length ys = n ^ r"
    and "\<forall>k<n ^ r. ys ! k = (if \<exists>j<n. k = j * (\<Sum>k<r. n ^ k) then 1 else 0)"
  shows "for_each [0..<n] (\<lambda>j tr. bnd (rd (Buf ys) (j * (\<Sum>k<r. n ^ k))) (\<lambda>v. Inr (tr + v))) 0
           = Inr (of_nat n)"
proof -
  let ?s = "\<Sum>k<r. n ^ k"
  have "\<exists>s'. for_each [0..<n] (\<lambda>j tr. bnd (rd (Buf ys) (j * ?s)) (\<lambda>v. Inr (tr + v))) 0 = Inr s'
          \<and> s' = of_nat n"
  proof (rule for_each_upt_inv[where P = "\<lambda>i s. s = of_nat i"])
    fix i and s :: complex
    assume i: "i < n" and s: "s = of_nat i"
    have lt: "i * ?s < n ^ r" using diag_offset_less[OF i] .
    then have "ys ! (i * ?s) = 1" using assms(2) i by auto
    then show "\<exists>s'. bnd (rd (Buf ys) (i * ?s)) (\<lambda>v. Inr (s + v)) = Inr s' \<and> s' = of_nat (Suc i)"
      using lt assms(1) s by simp
  qed simp_all
  then show ?thesis by simp
qed


lemma IdentityTensor_run:
  assumes wf: "wf_tensor t" and r1: "1 \<le> ndim t" and same: "\<forall>d\<in>set (dims_of t). d = n"
  shows "\<exists>ys. IdentityTensor t = Inr (t\<lparr>data := Buf ys\<rparr>)
           \<and> length ys = n ^ nat (ndim t)
           \<and> (\<forall>k<n ^ nat (ndim t).
                 ys ! k = (if \<exists>j<n. k = j * (\<Sum>m<nat (ndim t). n ^ m) then 1 else 0))"
proof -
  define r where "r = nat (ndim t)"
  define ds where "ds = dims_of t"
  from wf obtain xs where xs: "data t = Buf xs" "length xs = prod_list ds"
    and nd: "ndim t = int (length ds)"
    by (auto elim: wf_tensorE simp: ds_def)
  have dm: "dim t = Buf ds" using wf_dim_Buf[OF wf r1] by (simp add: ds_def)
  have len: "length ds = r" using nd by (simp add: r_def)
  have r_pos: "1 \<le> r" using r1 by (simp add: r_def)
  have ds_rep: "ds = replicate r n"
    using same len replicate_length_same[of ds n] by (simp add: ds_def)
  have d0: "ds ! 0 = n" using ds_rep r_pos by simp
  have prod: "prod_list ds = n ^ r" by (simp add: ds_rep)
  have pw: "n * n ^ (r - 1) = n ^ r" using r_pos by (cases r) simp_all
  have loop: "for_each [1..<nat (ndim t)]
           (\<lambda>i (stride, dp). bnd (rd (dim t) i) (\<lambda>d.
              if d \<noteq> n then Inl AssertionFailed else Inr (stride + dp * n, dp * n)))
           (1, 1) = Inr (\<Sum>k<r. n ^ k, n ^ (r - 1))"
    using stride_loop[OF len r_pos] same by (simp add: dm r_def ds_def)
  have ne: "NumTensorElements t = Inr (n ^ r)"
    using NumTensorElements_wf[OF wf] prod by (simp add: ds_def)
  obtain ys where ys:
    "for_each [0..<n] (\<lambda>j d. wr d (j * (\<Sum>k<r. n ^ k)) 1) (Buf (replicate (n ^ r) (0::complex))) = Inr (Buf ys)"
    "length ys = n ^ r"
    "\<forall>k<n ^ r. ys ! k = (if \<exists>j<n. k = j * (\<Sum>k<r. n ^ k) then 1 else 0)"
    using diag_write_loop[of "replicate (n ^ r) 0" n r] by auto
  have "IdentityTensor t = Inr (t\<lparr>data := Buf ys\<rparr>)"
    using r1 r_pos len d0 loop ne pw ys(1) xs prod
    by (simp add: IdentityTensor_def dm)
  then show ?thesis using ys(2,3) by (intro exI[of _ ys]) (simp add: r_def)
qed

lemma TensorTrace_diag:
  assumes dm: "dim t = Buf (replicate r n)" and nd: "ndim t = int r" and r1: "1 \<le> r"
    and dt: "data t = Buf ys" and len: "length ys = n ^ r"
    and ys: "\<forall>k<n ^ r. ys ! k = (if \<exists>j<n. k = j * (\<Sum>m<r. n ^ m) then 1 else 0)"
  shows "TensorTrace t = Inr (of_nat n)"
proof -
  have loop: "for_each [1..<nat (ndim t)]
           (\<lambda>i (stride, dp). bnd (rd (dim t) i) (\<lambda>d.
              if d \<noteq> n then Inl AssertionFailed else Inr (stride + dp * n, dp * n)))
           (1, 1) = Inr (\<Sum>k<r. n ^ k, n ^ (r - 1))"
    using stride_loop[of "replicate r n" r n] r1 by (simp add: dm nd)
  show ?thesis
    using r1 loop trace_loop[OF len ys] by (simp add: TensorTrace_def dm nd dt)
qed

text \<open>
  C5. On a well-formed tensor of rank \<open>r \<ge> 1\<close> whose extents all equal \<open>n\<close>,
  \<open>IdentityTensor\<close> returns, keeps rank and dimensions, and leaves data that are 1
  exactly at the flat offsets \<open>j * s\<close>, \<open>j < n\<close>, \<open>s = \<Sum>\<^sub>k\<^sub><\<^sub>r n\<^sup>k\<close>, and 0 elsewhere; in
  terms of multi-indices, 1 at the diagonal \<open>(j, ..., j)\<close> and 0 at every other
  multi-index. \<open>TensorTrace\<close> of the result returns \<open>n\<close>.
\<close>

theorem IdentityTensor_diagonal_trace:
  assumes wf: "wf_tensor t" and r1: "1 \<le> ndim t" and same: "\<forall>d\<in>set (dims_of t). d = n"
  shows "\<exists>t'. IdentityTensor t = Inr t' \<and> ndim t' = ndim t \<and> dim t' = dim t
           \<and> length (elems t') = n ^ nat (ndim t)
           \<and> (\<forall>k<n ^ nat (ndim t).
                 elems t' ! k = (if \<exists>j<n. k = j * (\<Sum>m<nat (ndim t). n ^ m) then 1 else 0))
           \<and> (\<forall>is. valid_index (dims_of t) is \<longrightarrow>
                 elems t' ! offs (dims_of t) is
                   = (if \<exists>j<n. is = replicate (nat (ndim t)) j then 1 else 0))
           \<and> TensorTrace t' = Inr (of_nat n)"
proof -
  define r where "r = nat (ndim t)"
  obtain ys where run: "IdentityTensor t = Inr (t\<lparr>data := Buf ys\<rparr>)"
    and len: "length ys = n ^ r"
    and ys: "\<forall>k<n ^ r. ys ! k = (if \<exists>j<n. k = j * (\<Sum>m<r. n ^ m) then 1 else 0)"
    using IdentityTensor_run[OF wf r1 same] by (auto simp: r_def)
  have nd: "ndim t = int r" using r1 by (simp add: r_def)
  have r_pos: "1 \<le> r" using r1 by (simp add: r_def)
  have lends: "length (dims_of t) = r" using wf nd by (auto elim: wf_tensorE)
  have ds_rep: "dims_of t = replicate r n"
    using same lends replicate_length_same[of "dims_of t" n] by simp
  have dm: "dim t = Buf (replicate r n)" using wf_dim_Buf[OF wf r1] ds_rep by simp
  have prod: "prod_list (dims_of t) = n ^ r" by (simp add: ds_rep)
  have tr: "TensorTrace (t\<lparr>data := Buf ys\<rparr>) = Inr (of_nat n)"
    by (rule TensorTrace_diag[where r = r and ys = ys]) (use dm nd r_pos len ys in simp_all)
  have diag: "\<forall>is. valid_index (dims_of t) is \<longrightarrow>
                 ys ! offs (dims_of t) is = (if \<exists>j<n. is = replicate r j then 1 else 0)"
  proof (intro allI impI)
    fix "is" assume v: "valid_index (dims_of t) is"
    have lt: "offs (dims_of t) is < n ^ r" using offs_less[OF v] prod by simp
    have "(\<exists>j<n. offs (dims_of t) is = j * (\<Sum>m<r. n ^ m)) \<longleftrightarrow> (\<exists>j<n. is = replicate r j)"
    proof
      assume "\<exists>j<n. offs (dims_of t) is = j * (\<Sum>m<r. n ^ m)"
      then obtain j where j: "j < n" "offs (dims_of t) is = j * (\<Sum>m<r. n ^ m)" by blast
      have "offs (dims_of t) is = offs (dims_of t) (replicate r j)"
        using j(2) by (simp add: ds_rep offs_diag)
      moreover have "valid_index (dims_of t) (replicate r j)"
        using valid_index_replicate[OF j(1)] by (simp add: ds_rep)
      ultimately have "is = replicate r j" using offs_inj[OF v] by blast
      then show "\<exists>j<n. is = replicate r j" using j(1) by blast
    next
      assume "\<exists>j<n. is = replicate r j"
      then show "\<exists>j<n. offs (dims_of t) is = j * (\<Sum>m<r. n ^ m)"
        by (auto simp: ds_rep offs_diag)
    qed
    then show "ys ! offs (dims_of t) is = (if \<exists>j<n. is = replicate r j then 1 else 0)"
      using ys lt by simp
  qed
  show ?thesis
    using run len ys diag tr
    by (intro exI[of _ "t\<lparr>data := Buf ys\<rparr>"]) (simp add: elems_def r_def)
qed

theorem IdentityTensor_diagonal_trace_witness:
  "wf_tensor \<lparr>data = Buf [7, 7, 7, 7], dim = Buf [2, 2], ndim = 2\<rparr>
   \<and> IdentityTensor \<lparr>data = Buf [7, 7, 7, 7], dim = Buf [2, 2], ndim = 2\<rparr>
       = Inr \<lparr>data = Buf [1, 0, 0, 1], dim = Buf [2, 2], ndim = 2\<rparr>
   \<and> TensorTrace \<lparr>data = Buf [1, 0, 0, 1], dim = Buf [2, 2], ndim = 2\<rparr> = Inr 2"
proof -
  let ?t = "\<lparr>data = Buf [7, 7, 7, 7], dim = Buf [2, 2], ndim = 2\<rparr>"
  have wf: "wf_tensor ?t" by code_simp
  have run: "IdentityTensor ?t = Inr \<lparr>data = Buf [1, 0, 0, 1], dim = Buf [2, 2], ndim = 2\<rparr>"
    by code_simp
  have "\<forall>d\<in>set (dims_of ?t). d = 2" by (simp add: dims_of_def)
  from IdentityTensor_diagonal_trace[OF wf _ this] run wf show ?thesis
    by simp
qed


text \<open>
  C10. Deleting a tensor whose pointers are not stale returns, leaves \<open>ndim = 0\<close> and
  a null data pointer, and a second \<open>DeleteTensor\<close> on the result releases no buffer and
  leaves the state as it is. A tensor whose two pointers are null (a moved-from source)
  is deleted without releasing anything.
\<close>

theorem DeleteTensor_idempotent:
  assumes "data t \<noteq> Dangling" and "0 < ndim t \<longrightarrow> dim t \<noteq> Dangling"
  shows "\<exists>t' k. DeleteTensor t = Inr (t', k) \<and> ndim t' = 0 \<and> data t' = Null
           \<and> DeleteTensor t' = Inr (t', 0)
           \<and> (dim t = Null \<and> data t = Null \<longrightarrow> k = 0)"
proof (cases "0 < ndim t")
  case True
  then have "dim t \<noteq> Dangling" using assms(2) by simp
  then show ?thesis using True assms(1)
    by (cases "dim t"; cases "data t") (simp_all add: DeleteTensor_def algn_free_def)
next
  case False
  then show ?thesis using assms(1)
    by (cases "data t") (simp_all add: DeleteTensor_def algn_free_def)
qed

theorem DeleteTensor_idempotent_witness:
  "DeleteTensor \<lparr>data = Buf [1, 2], dim = Buf [2], ndim = 1\<rparr>
     = Inr (\<lparr>data = Null, dim = Dangling, ndim = 0\<rparr>, 2)
   \<and> DeleteTensor \<lparr>data = Null, dim = Dangling, ndim = 0\<rparr>
     = Inr (\<lparr>data = Null, dim = Dangling, ndim = 0\<rparr>, 0)"
  using DeleteTensor_idempotent[of "\<lparr>data = Buf [1, 2], dim = Buf [2], ndim = 1\<rparr>"]
  by (simp add: DeleteTensor_def algn_free_def)

text \<open>
  C7 fails on the code. At rank 0 with the empty permutation, \<open>TransposeTensor\<close> reads
  \<open>perm[0]\<close>, which lies outside the empty array; and were that cell readable (a longer
  array behind \<open>perm\<close>), the copy loop reads \<open>t->dim[0]\<close> through the null dimension
  pointer of the scalar. No result tensor is produced either way.
\<close>

theorem TransposeTensor_rank0_faults:
  "TransposeTensor [] \<lparr>data = Buf [5], dim = Null, ndim = 0\<rparr> = Inl OutOfBounds
   \<and> TransposeTensor [0] \<lparr>data = Buf [5], dim = Null, ndim = 0\<rparr> = Inl NullDeref"
  by code_simp



section \<open>Generalized transpose: correctness\<close>


lemma perm_ok_length: "perm_ok perm n \<Longrightarrow> length perm = n"
  by (simp add: perm_ok_def)

lemma perm_ok_range:
  assumes "perm_ok perm n" and "k < n"
  shows "0 \<le> perm ! k" and "perm ! k < int n" and "nat (perm ! k) < n"
  using assms by (auto simp: perm_ok_def list_all_length)

lemma perm_ok_inj:
  assumes "perm_ok perm n" and "k < n" and "k' < n" and "perm ! k = perm ! k'"
  shows "k = k'"
  using assms by (simp add: perm_ok_def nth_eq_iff_index_eq)

lemma perm_ok_set:
  assumes "perm_ok perm n"
  shows "set perm = int ` {0..<n}"
proof (rule card_subset_eq)
  show "finite (int ` {0..<n})" by simp
  show "set perm \<subseteq> int ` {0..<n}"
  proof
    fix p assume "p \<in> set perm"
    then have "0 \<le> p" "p < int n" using assms by (auto simp: perm_ok_def list_all_iff)
    then have "p = int (nat p)" "nat p < n" by simp_all
    then show "p \<in> int ` {0..<n}" by (metis atLeastLessThan_iff image_eqI le0)
  qed
  have "card (set perm) = n" using assms by (simp add: perm_ok_def distinct_card)
  moreover have "card (int ` {0..<n}) = n" by (simp add: card_image)
  ultimately show "card (set perm) = card (int ` {0..<n})" by simp
qed

lemma perm_ok_surj:
  assumes "perm_ok perm n" and "j < n"
  shows "\<exists>k<n. perm ! k = int j"
proof -
  have "int j \<in> set perm" using perm_ok_set[OF assms(1)] assms(2) by simp
  then show ?thesis using assms(1) by (auto simp: in_set_conv_nth perm_ok_def)
qed

lemma takeWhile_position:
  assumes "distinct xs" and "k < length xs"
  shows "length (takeWhile (\<lambda>p. p \<noteq> xs ! k) xs) = k"
proof -
  have "takeWhile (\<lambda>p. p \<noteq> xs ! k) xs = take k xs"
  proof (rule takeWhile_eq_take_P_nth)
    fix i assume "i < k" "i < length xs"
    then show "xs ! i \<noteq> xs ! k" using assms by (simp add: nth_eq_iff_index_eq)
  qed (use assms in simp_all)
  then show ?thesis using assms by simp
qed

lemma length_inv_perm [simp]: "length (inv_perm perm) = length perm"
  by (simp add: inv_perm_def)

lemma inv_perm_at:
  assumes "perm_ok perm n" and "k < n"
  shows "inv_perm perm ! nat (perm ! k) = int k"
proof -
  have r: "nat (perm ! k) < n" "0 \<le> perm ! k" using perm_ok_range[OF assms] by simp_all
  have d: "distinct perm" "length perm = n" using assms(1) by (simp_all add: perm_ok_def)
  show ?thesis
    using r d takeWhile_position[of perm k] assms(2) by (simp add: inv_perm_def)
qed

lemma perm_at_inv:
  assumes "perm_ok perm n" and "j < n"
  shows "perm ! nat (inv_perm perm ! j) = int j"
proof -
  obtain k where k: "k < n" "perm ! k = int j" using perm_ok_surj[OF assms] by blast
  have "inv_perm perm ! nat (perm ! k) = int k" by (rule inv_perm_at[OF assms(1) k(1)])
  then show ?thesis using k by simp
qed

lemma inv_perm_range:
  assumes "perm_ok perm n" and "j < n"
  shows "0 \<le> inv_perm perm ! j" and "nat (inv_perm perm ! j) < n"
proof -
  obtain k where k: "k < n" "perm ! k = int j" using perm_ok_surj[OF assms] by blast
  have "inv_perm perm ! nat (perm ! k) = int k" by (rule inv_perm_at[OF assms(1) k(1)])
  then have e: "inv_perm perm ! j = int k" using k by simp
  show "0 \<le> inv_perm perm ! j" and "nat (inv_perm perm ! j) < n" using e k by simp_all
qed

lemma perm_ok_inv_perm:
  assumes "perm_ok perm n"
  shows "perm_ok (inv_perm perm) n"
proof -
  have len: "length (inv_perm perm) = n" using assms by (simp add: perm_ok_def)
  have "distinct (inv_perm perm)"
  proof (rule distinct_conv_nth[THEN iffD2], intro allI impI)
    fix i j assume ij: "i < length (inv_perm perm)" "j < length (inv_perm perm)" "i \<noteq> j"
    then have "i < n" "j < n" using len by simp_all
    then have "perm ! nat (inv_perm perm ! i) = int i" "perm ! nat (inv_perm perm ! j) = int j"
      using perm_at_inv[OF assms] by simp_all
    then show "inv_perm perm ! i \<noteq> inv_perm perm ! j" using ij(3) by auto
  qed
  moreover have "list_all (\<lambda>p. 0 \<le> p \<and> p < int n) (inv_perm perm)"
    unfolding list_all_length
  proof (intro allI impI)
    fix j assume "j < length (inv_perm perm)"
    then have j: "j < n" using len by simp
    show "0 \<le> inv_perm perm ! j \<and> inv_perm perm ! j < int n"
      using inv_perm_range[OF assms j] by linarith
  qed
  ultimately show ?thesis using len by (simp add: perm_ok_def)
qed

lemma inverse_unique:
  assumes "perm_ok perm n" and "length pinv = n"
    and "\<forall>k<n. pinv ! nat (perm ! k) = int k"
  shows "pinv = inv_perm perm"
proof (rule nth_equalityI)
  show "length pinv = length (inv_perm perm)" using assms by (simp add: perm_ok_def)
next
  fix j assume "j < length pinv"
  then have j: "j < n" using assms(2) by simp
  obtain k where k: "k < n" "perm ! k = int j" using perm_ok_surj[OF assms(1) j] by blast
  have "inv_perm perm ! nat (perm ! k) = int k" by (rule inv_perm_at[OF assms(1) k(1)])
  moreover have "pinv ! nat (perm ! k) = int k" using assms(3) k(1) by simp
  ultimately show "pinv ! j = inv_perm perm ! j" using k(2) by simp
qed

lemma inv_perm_inv_perm:
  assumes "perm_ok perm n"
  shows "inv_perm (inv_perm perm) = perm"
proof -
  have "perm = inv_perm (inv_perm perm)"
  proof (rule inverse_unique[OF perm_ok_inv_perm[OF assms]])
    show "length perm = n" using assms by (simp add: perm_ok_def)
    show "\<forall>k<n. perm ! nat (inv_perm perm ! k) = int k"
      using perm_at_inv[OF assms] by simp
  qed
  then show ?thesis by simp
qed

lemma length_gather [simp]: "length (gather perm js) = length perm"
  by (simp add: gather_def)

lemma gather_nth: "k < length perm \<Longrightarrow> gather perm js ! k = js ! nat (perm ! k)"
  by (simp add: gather_def)

lemma gather_gather_inv:
  assumes "perm_ok perm n" and "length xs = n"
  shows "gather perm (gather (inv_perm perm) xs) = xs"
proof (rule nth_equalityI)
  show "length (gather perm (gather (inv_perm perm) xs)) = length xs"
    using assms by (simp add: perm_ok_def)
next
  fix k assume "k < length (gather perm (gather (inv_perm perm) xs))"
  then have k: "k < n" using assms by (simp add: perm_ok_def)
  have "nat (perm ! k) < n" using perm_ok_range[OF assms(1) k] by simp
  then show "gather perm (gather (inv_perm perm) xs) ! k = xs ! k"
    using k assms inv_perm_at[OF assms(1) k] by (simp add: gather_nth perm_ok_def)
qed

lemma gather_inv_gather:
  assumes "perm_ok perm n" and "length xs = n"
  shows "gather (inv_perm perm) (gather perm xs) = xs"
  using gather_gather_inv[OF perm_ok_inv_perm[OF assms(1)] assms(2)]
  by (simp add: inv_perm_inv_perm[OF assms(1)])


lemma prod_list_nth_prod:
  fixes xs :: "nat list"
  shows "prod_list xs = (\<Prod>k = 0..<length xs. xs ! k)"
proof (induction xs rule: rev_induct)
  case Nil
  then show ?case by simp
next
  case (snoc x xs)
  have "(\<Prod>k = 0..<length xs. (xs @ [x]) ! k) = (\<Prod>k = 0..<length xs. xs ! k)"
    by (intro prod.cong) (simp_all add: nth_append)
  then show ?case using snoc by (simp add: nth_append)
qed

lemma prod_list_gather:
  fixes xs :: "nat list"
  assumes "perm_ok perm n" and "length xs = n"
  shows "prod_list (gather perm xs) = prod_list xs"
proof -
  have bij: "bij_betw (\<lambda>k. nat (perm ! k)) {0..<n} {0..<n}"
  proof (rule bij_betwI')
    fix x y assume "x \<in> {0..<n}" "y \<in> {0..<n}"
    then have x: "x < n" and y: "y < n" by simp_all
    show "(nat (perm ! x) = nat (perm ! y)) = (x = y)"
      using perm_ok_inj[OF assms(1) x y] perm_ok_range(1)[OF assms(1) x]
        perm_ok_range(1)[OF assms(1) y] by auto
  next
    fix x assume "x \<in> {0..<n}"
    then show "nat (perm ! x) \<in> {0..<n}" using perm_ok_range(3)[OF assms(1)] by simp
  next
    fix y assume "y \<in> {0..<n}"
    then have "y < n" by simp
    then obtain k where "k < n" "perm ! k = int y" using perm_ok_surj[OF assms(1)] by blast
    then show "\<exists>x\<in>{0..<n}. y = nat (perm ! x)" by force
  qed
  have "prod_list (gather perm xs) = (\<Prod>k = 0..<n. gather perm xs ! k)"
    using assms by (simp add: prod_list_nth_prod perm_ok_def)
  also have "\<dots> = (\<Prod>k = 0..<n. xs ! nat (perm ! k))"
    using assms by (intro prod.cong) (simp_all add: gather_nth perm_ok_def)
  also have "\<dots> = (\<Prod>j = 0..<n. xs ! j)"
    by (rule prod.reindex_bij_betw[OF bij])
  also have "\<dots> = prod_list xs" using assms by (simp add: prod_list_nth_prod)
  finally show ?thesis .
qed

lemma valid_index_gather:
  assumes "perm_ok perm n" and "valid_index ds is" and "length ds = n"
  shows "valid_index (gather perm ds) (gather perm is)"
  unfolding valid_index_iff
proof (intro conjI allI impI)
  show "length (gather perm is) = length (gather perm ds)" by simp
next
  fix k assume "k < length (gather perm ds)"
  then have k: "k < n" using assms(1) by (simp add: perm_ok_def)
  have "nat (perm ! k) < length ds" using perm_ok_range(3)[OF assms(1) k] assms(3) by simp
  then show "gather perm is ! k < gather perm ds ! k"
    using assms(1,2) k by (simp add: gather_nth perm_ok_def valid_index_iff)
qed

lemma valid_index_length: "valid_index ds is \<Longrightarrow> length is = length ds"
  by (simp add: valid_index_iff)

lemma offs_append:
  "length ds = length is \<Longrightarrow>
     offs (ds @ ds') (is @ is') = offs ds is + prod_list ds * offs ds' is'"
proof (induction ds "is" rule: offs.induct)
  case (1 d ds i "is")
  then show ?case by (simp add: algebra_simps)
qed simp_all

lemma offs_snoc:
  "length ds = length is \<Longrightarrow> offs (ds @ [d]) (is @ [x]) = offs ds is + prod_list ds * x"
  using offs_append[of ds "is" "[d]" "[x]"] by simp

lemma offs_update:
  assumes "length js = length ds" and "q < length ds" and "js ! q = 0"
  shows "offs ds (js[q := v]) = offs ds js + v * prod_list (take q ds)"
proof -
  have ds: "ds = take q ds @ ds ! q # drop (Suc q) ds"
    using assms(2) by (simp add: id_take_nth_drop)
  have js: "js = take q js @ 0 # drop (Suc q) js"
    using assms by (metis id_take_nth_drop)
  have js': "js[q := v] = take q js @ v # drop (Suc q) js"
    using assms by (simp add: upd_conv_take_nth_drop)
  have len: "length (take q ds) = length (take q js)" using assms by simp
  have "offs ds (js[q := v])
          = offs (take q ds @ ds ! q # drop (Suc q) ds) (take q js @ v # drop (Suc q) js)"
    using ds js' by simp
  also have "\<dots> = offs (take q ds) (take q js)
                    + prod_list (take q ds) * (v + ds ! q * offs (drop (Suc q) ds) (drop (Suc q) js))"
    by (simp add: offs_append[OF len])
  finally have a: "offs ds (js[q := v]) = offs (take q ds) (take q js)
                    + prod_list (take q ds) * (v + ds ! q * offs (drop (Suc q) ds) (drop (Suc q) js))" .
  have "offs ds js
          = offs (take q ds @ ds ! q # drop (Suc q) ds) (take q js @ 0 # drop (Suc q) js)"
    using ds js by simp
  also have "\<dots> = offs (take q ds) (take q js)
                    + prod_list (take q ds) * (0 + ds ! q * offs (drop (Suc q) ds) (drop (Suc q) js))"
    by (simp add: offs_append[OF len])
  finally have b: "offs ds js = offs (take q ds) (take q js)
                    + prod_list (take q ds) * (0 + ds ! q * offs (drop (Suc q) ds) (drop (Suc q) js))" .
  show ?thesis unfolding a b by (simp add: algebra_simps)
qed

lemma IndexToOffset_Buf:
  assumes "length ds = n" and "length is = n"
  shows "IndexToOffset (int n) (Buf ds) (Buf is) = Inr (offs ds is)"
proof -
  let ?body = "\<lambda>i (offset, dimfac).
               bnd (rd (Buf is) i) (\<lambda>x.
               bnd (rd (Buf ds) i) (\<lambda>d. Inr (offset + dimfac * x, dimfac * d)))"
  have "\<exists>s'. for_each [0..<n] ?body (0, 1) = Inr s'
          \<and> s' = (offs (take n ds) (take n is), prod_list (take n ds))"
  proof (rule for_each_upt_inv[where P = "\<lambda>i s. s = (offs (take i ds) (take i is), prod_list (take i ds))"])
    fix i s
    assume i: "i < n" and s: "s = (offs (take i ds) (take i is), prod_list (take i ds))"
    have "offs (take (Suc i) ds) (take (Suc i) is)
            = offs (take i ds) (take i is) + prod_list (take i ds) * is ! i"
      using i assms by (simp add: take_Suc_conv_app_nth offs_snoc)
    then show "\<exists>s'. ?body i s = Inr s'
                 \<and> s' = (offs (take (Suc i) ds) (take (Suc i) is), prod_list (take (Suc i) ds))"
      using i assms s by (simp add: take_Suc_conv_app_nth)
  qed simp_all
  then show ?thesis using assms by (simp add: IndexToOffset_def)
qed

lemma NextIndex_from_idx:
  assumes "\<forall>d\<in>set ds. 0 < d" and "length dpre = length pre"
  shows "NextIndex_from [length pre..<length pre + length ds] (Buf (dpre @ ds))
           (Buf (pre @ idx_of ds k)) = Inr (Buf (pre @ idx_of ds (Suc k)))"
  using assms
proof (induction ds arbitrary: pre dpre k)
  case Nil
  then show ?case by simp
next
  case (Cons d ds)
  have d: "0 < d" using Cons.prems(1) by simp
  have upt: "[length pre..<length pre + length (d # ds)]
               = length pre # [length (pre @ [0])..<length (pre @ [0]) + length ds]"
  proof -
    have "length pre < length pre + length (d # ds)" by simp
    from upt_conv_Cons[OF this] show ?thesis by simp
  qed
  show ?case
  proof (cases "Suc (k mod d) < d")
    case True
    then have "Suc k mod d = Suc (k mod d)" "Suc k div d = k div d"
      by (simp_all add: mod_Suc div_Suc)
    then show ?thesis
      using True Cons.prems(2) unfolding upt by (simp add: nth_append del: upt_Suc)
  next
    case False
    then have e: "Suc (k mod d) = d" using d
      by (metis Suc_lessI mod_less_divisor)
    then have sk: "Suc k mod d = 0" "Suc k div d = Suc (k div d)"
      by (simp_all add: mod_Suc div_Suc)
    have IH: "NextIndex_from [length (pre @ [0])..<length (pre @ [0]) + length ds]
                (Buf ((dpre @ [d]) @ ds)) (Buf ((pre @ [0]) @ idx_of ds (k div d)))
              = Inr (Buf ((pre @ [0]) @ idx_of ds (Suc (k div d))))"
      by (rule Cons.IH) (use Cons.prems in simp_all)
    show ?thesis
      using False Cons.prems(2) IH sk unfolding upt
      by (simp add: nth_append del: upt_Suc)
  qed
qed

lemma NextIndex_idx:
  assumes "\<forall>d\<in>set ds. 0 < d"
  shows "NextIndex (int (length ds)) (Buf ds) (Buf (idx_of ds k)) = Inr (Buf (idx_of ds (Suc k)))"
  using NextIndex_from_idx[OF assms, of "[]" "[]" k] by (simp add: NextIndex_def)


lemma for_each_cong:
  "(\<And>i s. i \<in> set is \<Longrightarrow> f i s = g i s) \<Longrightarrow> for_each is f s = for_each is g s"
  by (induction "is" arbitrary: s) (auto split: sum.splits)

lemma scatter_loop:
  assumes "perm_ok perm n" and "length init = n"
  shows "\<exists>arr. for_each [0..<n] (\<lambda>i arr. wri arr (perm ! i) (Some (xs ! i))) init = Inr arr
           \<and> length arr = n \<and> (\<forall>k<n. arr ! nat (perm ! k) = Some (xs ! k))"
proof -
  let ?P = "\<lambda>i arr. length arr = n \<and> (\<forall>k<i. arr ! nat (perm ! k) = Some (xs ! k))"
  have "\<exists>s'. for_each [0..<n] (\<lambda>i arr. wri arr (perm ! i) (Some (xs ! i))) init = Inr s' \<and> ?P n s'"
  proof (rule for_each_upt_inv[where P = ?P])
    show "?P 0 init" using assms(2) by simp
  next
    fix i arr assume i: "i < n" and P: "?P i arr"
    have r: "0 \<le> perm ! i" "nat (perm ! i) < n" using perm_ok_range[OF assms(1) i] by simp_all
    have "\<forall>k<Suc i. arr[nat (perm ! i) := Some (xs ! i)] ! nat (perm ! k) = Some (xs ! k)"
    proof (intro allI impI)
      fix k assume k: "k < Suc i"
      show "arr[nat (perm ! i) := Some (xs ! i)] ! nat (perm ! k) = Some (xs ! k)"
      proof (cases "k = i")
        case True
        then show ?thesis using r P by simp
      next
        case False
        then have ki: "k < i" using k by simp
        then have kn: "k < n" using i by simp
        have "perm ! k \<noteq> perm ! i" using perm_ok_inj[OF assms(1) kn i] False by blast
        moreover have "0 \<le> perm ! k" using perm_ok_range(1)[OF assms(1) kn] .
        ultimately have "nat (perm ! k) \<noteq> nat (perm ! i)" using r(1) by simp
        then show ?thesis using P ki by simp
      qed
    qed
    then show "\<exists>s'. wri arr (perm ! i) (Some (xs ! i)) = Inr s' \<and> ?P (Suc i) s'"
      using r P by (simp add: wri_def wrl_def)
  qed simp
  then show ?thesis by blast
qed

lemma initialised_map_Some [simp]: "initialised (map Some ys) = Inr ys"
  by (simp add: initialised_def list_all_iff comp_def)

lemma scatter_result:
  assumes "perm_ok perm n" and "length arr = n" and "length xs = n"
    and "\<forall>k<n. arr ! nat (perm ! k) = Some (xs ! k)"
  shows "arr = map Some (gather (inv_perm perm) xs)"
proof (rule nth_equalityI)
  show "length arr = length (map Some (gather (inv_perm perm) xs))"
    using assms by (simp add: perm_ok_def)
next
  fix j assume "j < length arr"
  then have j: "j < n" using assms(2) by simp
  obtain k where k: "k < n" "perm ! k = int j" using perm_ok_surj[OF assms(1) j] by blast
  have "inv_perm perm ! nat (perm ! k) = int k" by (rule inv_perm_at[OF assms(1) k(1)])
  then have "inv_perm perm ! j = int k" using k(2) by simp
  moreover have "arr ! j = Some (xs ! k)" using assms(4) k by force
  ultimately show "arr ! j = map Some (gather (inv_perm perm) xs) ! j"
    using j assms(1) by (simp add: gather_nth perm_ok_def)
qed

lemma copy_loop:
  fixes xs ys :: "complex list"
  assumes "\<forall>j<d0. ot + j < length xs" and "\<forall>j<d0. base + j * stride < length ys"
    and "0 < stride"
  shows "\<exists>ys'. for_each [0..<d0]
                 (\<lambda>j rd1. bnd (rd (Buf xs) (ot + j)) (\<lambda>v. wr rd1 (base + j * stride) v))
                 (Buf ys) = Inr (Buf ys')
           \<and> length ys' = length ys
           \<and> (\<forall>j<d0. ys' ! (base + j * stride) = xs ! (ot + j))
           \<and> (\<forall>q. (\<forall>j<d0. q \<noteq> base + j * stride) \<longrightarrow> ys' ! q = ys ! q)"
proof -
  let ?body = "\<lambda>j rd1. bnd (rd (Buf xs) (ot + j)) (\<lambda>v. wr rd1 (base + j * stride) v)"
  let ?P = "\<lambda>i s. \<exists>ys'. s = Buf ys' \<and> length ys' = length ys
              \<and> (\<forall>j<i. ys' ! (base + j * stride) = xs ! (ot + j))
              \<and> (\<forall>q. (\<forall>j<i. q \<noteq> base + j * stride) \<longrightarrow> ys' ! q = ys ! q)"
  have "\<exists>s'. for_each [0..<d0] ?body (Buf ys) = Inr s' \<and> ?P d0 s'"
  proof (rule for_each_upt_inv[where P = ?P])
    show "?P 0 (Buf ys)" by simp
  next
    fix i s assume i: "i < d0" and "?P i s"
    then obtain ys1 where ys1: "s = Buf ys1" "length ys1 = length ys"
      "\<forall>j<i. ys1 ! (base + j * stride) = xs ! (ot + j)"
      "\<forall>q. (\<forall>j<i. q \<noteq> base + j * stride) \<longrightarrow> ys1 ! q = ys ! q" by blast
    let ?ys2 = "ys1[base + i * stride := xs ! (ot + i)]"
    have a: "ot + i < length xs" "base + i * stride < length ys1"
      using assms(1,2) i ys1(2) by simp_all
    have "\<forall>j<Suc i. ?ys2 ! (base + j * stride) = xs ! (ot + j)"
    proof (intro allI impI)
      fix j assume j: "j < Suc i"
      show "?ys2 ! (base + j * stride) = xs ! (ot + j)"
      proof (cases "j = i")
        case True
        then show ?thesis using a by simp
      next
        case False
        then have "j < i" using j by simp
        moreover have "base + j * stride \<noteq> base + i * stride"
          using False assms(3) by simp
        ultimately show ?thesis using ys1(3) by simp
      qed
    qed
    moreover have "\<forall>q. (\<forall>j<Suc i. q \<noteq> base + j * stride) \<longrightarrow> ?ys2 ! q = ys ! q"
    proof (intro allI impI)
      fix q assume q: "\<forall>j<Suc i. q \<noteq> base + j * stride"
      then have "q \<noteq> base + i * stride" and "\<forall>j<i. q \<noteq> base + j * stride" by simp_all
      then show "?ys2 ! q = ys ! q" using ys1(4) by simp
    qed
    ultimately have "?P (Suc i) (Buf ?ys2)" using ys1(2) by simp
    then show "\<exists>s'. ?body i s = Inr s' \<and> ?P (Suc i) s'"
      using a ys1(1) by simp
  qed simp
  then show ?thesis by blast
qed


lemma length_transpose_dims [simp]: "length (transpose_dims perm ds) = length perm"
  by (simp add: transpose_dims_def)

lemma prod_list_transpose_dims:
  assumes "perm_ok perm n" and "length ds = n"
  shows "prod_list (transpose_dims perm ds) = prod_list ds"
  unfolding transpose_dims_def
  by (rule prod_list_gather[OF perm_ok_inv_perm[OF assms(1)] assms(2)])

lemma transpose_dims_nth:
  assumes "perm_ok perm n" and "k < n"
  shows "transpose_dims perm ds ! nat (perm ! k) = ds ! k"
  using perm_ok_range(3)[OF assms] inv_perm_at[OF assms] assms(1)
  by (simp add: transpose_dims_def gather_nth perm_ok_def)

lemma transpose_dims_pos:
  assumes "perm_ok perm n" and "length ds = n" and "\<forall>d\<in>set ds. 0 < d"
  shows "\<forall>d\<in>set (transpose_dims perm ds). 0 < d"
proof
  fix d assume "d \<in> set (transpose_dims perm ds)"
  then obtain j where j: "j < n" "d = transpose_dims perm ds ! j"
    using assms(1) by (auto simp: in_set_conv_nth perm_ok_def)
  have "nat (inv_perm perm ! j) < n" using inv_perm_range(2)[OF assms(1) j(1)] .
  then have "ds ! nat (inv_perm perm ! j) \<in> set ds" using assms(2) by simp
  then show "0 < d" using assms(3) j assms(1)
    by (simp add: transpose_dims_def gather_nth perm_ok_def)
qed

lemma valid_index_scatter:
  assumes "perm_ok perm n" and "length ds = n" and "valid_index ds is"
  shows "valid_index (transpose_dims perm ds) (gather (inv_perm perm) is)"
  unfolding transpose_dims_def
  by (rule valid_index_gather[OF perm_ok_inv_perm[OF assms(1)] assms(3) assms(2)])

lemma transpose_offset_less:
  assumes "perm_ok perm n" and "length ds = n" and "k < prod_list ds"
  shows "transpose_offset perm ds k < prod_list ds"
proof -
  have "valid_index (transpose_dims perm ds) (gather (inv_perm perm) (idx_of ds k))"
    by (rule valid_index_scatter[OF assms(1,2) valid_idx_of[OF assms(3)]])
  from offs_less[OF this] show ?thesis
    by (simp add: transpose_offset_def prod_list_transpose_dims[OF assms(1,2)])
qed

lemma transpose_offset_inj:
  assumes "perm_ok perm n" and "length ds = n" and "k < prod_list ds" and "k' < prod_list ds"
    and "transpose_offset perm ds k = transpose_offset perm ds k'"
  shows "k = k'"
proof -
  let ?g = "gather (inv_perm perm)"
  have v: "valid_index (transpose_dims perm ds) (?g (idx_of ds k))"
    "valid_index (transpose_dims perm ds) (?g (idx_of ds k'))"
    using valid_index_scatter[OF assms(1,2)] valid_idx_of assms(3,4) by simp_all
  have "?g (idx_of ds k) = ?g (idx_of ds k')"
    using offs_inj[OF v] assms(5) by (simp add: transpose_offset_def)
  then have "gather perm (?g (idx_of ds k)) = gather perm (?g (idx_of ds k'))" by simp
  then have "idx_of ds k = idx_of ds k'"
    using gather_gather_inv[OF assms(1), of "idx_of ds k"]
      gather_gather_inv[OF assms(1), of "idx_of ds k'"] assms(2) by simp
  then have "offs ds (idx_of ds k) = offs ds (idx_of ds k')" by simp
  then show ?thesis using offs_idx_of assms(3,4) by simp
qed

lemma gather_inv_row:
  assumes "perm_ok perm (Suc n')" and "length tls = n'"
  shows "gather (inv_perm perm) (j # tls)
           = (gather (inv_perm perm) (0 # tls))[nat (perm ! 0) := j]"
    and "gather (inv_perm perm) (0 # tls) ! nat (perm ! 0) = 0"
proof -
  let ?pinv = "inv_perm perm"
  have len: "length perm = Suc n'" using assms(1) by (simp add: perm_ok_def)
  have p0: "nat (perm ! 0) < Suc n'" "0 \<le> perm ! 0" "?pinv ! nat (perm ! 0) = 0"
    using perm_ok_range[OF assms(1), of 0] inv_perm_at[OF assms(1), of 0] by simp_all
  show "gather ?pinv (0 # tls) ! nat (perm ! 0) = 0"
    using p0 len by (simp add: gather_nth)
  show "gather ?pinv (j # tls) = (gather ?pinv (0 # tls))[nat (perm ! 0) := j]"
  proof (rule nth_equalityI)
    show "length (gather ?pinv (j # tls)) = length ((gather ?pinv (0 # tls))[nat (perm ! 0) := j])"
      by simp
  next
    fix q assume "q < length (gather ?pinv (j # tls))"
    then have q: "q < Suc n'" using len by simp
    show "gather ?pinv (j # tls) ! q = (gather ?pinv (0 # tls))[nat (perm ! 0) := j] ! q"
    proof (cases "q = nat (perm ! 0)")
      case True
      then show ?thesis using p0 len by (simp add: gather_nth)
    next
      case False
      have "perm ! nat (?pinv ! q) = int q" by (rule perm_at_inv[OF assms(1) q])
      then have "nat (?pinv ! q) \<noteq> 0" using False by auto
      then obtain m where "nat (?pinv ! q) = Suc m" by (cases "nat (?pinv ! q)") simp_all
      then show ?thesis using False q len by (simp add: gather_nth)
    qed
  qed
qed

lemma idx_of_row: "j < d0 \<Longrightarrow> idx_of (d0 # dtl) (m * d0 + j) = j # idx_of dtl m"
  by simp

lemma transpose_offset_row:
  assumes "perm_ok perm (Suc n')" and "length dtl = n'" and "j < d0"
  shows "transpose_offset perm (d0 # dtl) (m * d0 + j)
           = transpose_offset perm (d0 # dtl) (m * d0)
             + j * prod_list (take (nat (perm ! 0)) (transpose_dims perm (d0 # dtl)))"
proof -
  let ?rds = "transpose_dims perm (d0 # dtl)"
  let ?tl = "idx_of dtl m"
  have d0: "0 < d0" using assms(3) by simp
  have i0: "idx_of (d0 # dtl) (m * d0) = 0 # ?tl" using idx_of_row[OF d0, of dtl m] by simp
  have ij: "idx_of (d0 # dtl) (m * d0 + j) = j # ?tl" by (rule idx_of_row[OF assms(3)])
  have ltl: "length ?tl = n'" using assms(2) by simp
  have len: "length perm = Suc n'" using assms(1) by (simp add: perm_ok_def)
  have p0: "nat (perm ! 0) < Suc n'" using perm_ok_range(3)[OF assms(1), of 0] by simp
  have "offs ?rds (gather (inv_perm perm) (j # ?tl))
          = offs ?rds ((gather (inv_perm perm) (0 # ?tl))[nat (perm ! 0) := j])"
    by (simp only: gather_inv_row(1)[OF assms(1) ltl, of j])
  also have "\<dots> = offs ?rds (gather (inv_perm perm) (0 # ?tl))
                     + j * prod_list (take (nat (perm ! 0)) ?rds)"
    by (rule offs_update) (use len p0 gather_inv_row(2)[OF assms(1) ltl] in simp_all)
  finally show ?thesis by (simp only: transpose_offset_def i0 ij)
qed

lemma transpose_data_unique:
  assumes "perm_ok perm n" and "length ds = n" and "length ys = prod_list ds"
    and "\<forall>k<prod_list ds. ys ! transpose_offset perm ds k = xs ! k"
  shows "ys = transpose_data perm ds xs"
proof (rule nth_equalityI)
  show "length ys = length (transpose_data perm ds xs)"
    using assms(3) by (simp add: transpose_data_def)
next
  fix q assume "q < length ys"
  then have q: "q < prod_list ds" using assms(3) by simp
  let ?rds = "transpose_dims perm ds"
  let ?k = "offs ds (gather perm (idx_of ?rds q))"
  have q': "q < prod_list ?rds" using q prod_list_transpose_dims[OF assms(1,2)] by simp
  have vr: "valid_index ?rds (idx_of ?rds q)" by (rule valid_idx_of[OF q'])
  have lr: "length ?rds = n" using assms(1) by (simp add: perm_ok_def)
  have gg: "gather perm ?rds = ds"
    unfolding transpose_dims_def by (rule gather_gather_inv[OF assms(1,2)])
  have v: "valid_index ds (gather perm (idx_of ?rds q))"
    using valid_index_gather[OF assms(1) vr lr] gg by simp
  have k: "?k < prod_list ds" by (rule offs_less[OF v])
  have "idx_of ds ?k = gather perm (idx_of ?rds q)" by (rule idx_of_offs[OF v])
  then have "transpose_offset perm ds ?k
               = offs ?rds (gather (inv_perm perm) (gather perm (idx_of ?rds q)))"
    by (simp add: transpose_offset_def)
  also have "\<dots> = offs ?rds (idx_of ?rds q)"
    using gather_inv_gather[OF assms(1), of "idx_of ?rds q"] lr by simp
  also have "\<dots> = q" by (rule offs_idx_of[OF q'])
  finally have "transpose_offset perm ds ?k = q" .
  then have "ys ! q = xs ! ?k" using assms(4) k by force
  then show "ys ! q = transpose_data perm ds xs ! q"
    using q by (simp add: transpose_data_def)
qed



lemma prod_list_pos:
  fixes xs :: "nat list"
  shows "\<forall>d\<in>set xs. 0 < d \<Longrightarrow> 0 < prod_list xs"
  by (induction xs) simp_all

lemma Transpose_loop_correct:
  fixes xs ys :: "complex list"
  assumes perm: "perm_ok perm (Suc n')"
    and len: "length dtl = n'"
    and pos: "0 < d0" "\<forall>d\<in>set dtl. 0 < d"
    and t: "dim t = Buf (d0 # dtl)" "data t = Buf xs" "ndim t = int (Suc n')"
    and xs: "length xs = d0 * prod_list dtl"
    and r: "dim r = Buf (transpose_dims perm (d0 # dtl))" "ndim r = int (Suc n')"
    and stride: "stride = prod_list (take (nat (perm ! 0)) (transpose_dims perm (d0 # dtl)))"
  shows "m \<le> prod_list dtl \<Longrightarrow> length ys = d0 * prod_list dtl \<Longrightarrow> length index_r = Suc n' \<Longrightarrow>
         (\<forall>k<m * d0. ys ! transpose_offset perm (d0 # dtl) k = xs ! k) \<Longrightarrow>
         \<exists>ys'. Transpose_loop perm t r stride (d0 * prod_list dtl) (m * d0)
                 (0 # idx_of dtl m) index_r (Buf ys) = Inr (Buf ys')
               \<and> length ys' = d0 * prod_list dtl
               \<and> (\<forall>k<d0 * prod_list dtl. ys' ! transpose_offset perm (d0 # dtl) k = xs ! k)"
proof (induction "prod_list dtl - m" arbitrary: m ys index_r)
  case 0
  then have "m = prod_list dtl" by simp
  then have c: "(m * d0 < d0 * prod_list dtl) = False" by (simp add: mult.commute)
  have "Transpose_loop perm t r stride (d0 * prod_list dtl) (m * d0)
               (0 # idx_of dtl m) index_r (Buf ys) = Inr (Buf ys)"
    by (subst Transpose_loop.simps) (simp only: c if_False)
  moreover have "\<forall>k<d0 * prod_list dtl. ys ! transpose_offset perm (d0 # dtl) k = xs ! k"
    using "0.prems"(4) \<open>m = prod_list dtl\<close> by (simp add: mult.commute)
  ultimately show ?case using "0.prems"(2) by simp
next
  case (Suc x)
  let ?ds = "d0 # dtl"
  let ?N = "d0 * prod_list dtl"
  let ?rds = "transpose_dims perm ?ds"
  let ?it = "0 # idx_of dtl m"
  let ?js = "gather (inv_perm perm) ?it"
  let ?base = "transpose_offset perm ?ds (m * d0)"
  have mlt: "m < prod_list dtl" using Suc.hyps(2) by simp
  have lds: "length ?ds = Suc n'" using len by simp
  have lperm: "length perm = Suc n'" using perm by (simp add: perm_ok_def)
  have prodN: "prod_list ?ds = ?N" by simp
  have row: "\<And>j. j < d0 \<Longrightarrow> m * d0 + j < ?N"
  proof -
    fix j assume "j < d0"
    then have "m * d0 + j < Suc m * d0" by simp
    also have "\<dots> \<le> prod_list dtl * d0" using mlt by (intro mult_le_mono1) simp
    finally show "m * d0 + j < ?N" by (simp add: mult.commute)
  qed
  have cond: "(m * d0 < ?N) = True" using row[of 0] pos(1) by simp
  have it: "idx_of ?ds (m * d0) = ?it" using idx_of_row[OF pos(1), of dtl m] by simp
  have lit: "length ?it = Suc n'" using len by simp
  \<comment> \<open>the index map\<close>
  have "for_each [0..<nat (ndim t)]
          (\<lambda>i ir. bnd (rdl perm i) (\<lambda>p. bnd (rdl ?it i) (\<lambda>x. wri ir p (Some x)))) index_r
        = for_each [0..<Suc n'] (\<lambda>i arr. wri arr (perm ! i) (Some (?it ! i))) index_r"
    unfolding t(3) nat_int
  proof (rule for_each_cong)
    fix i and s :: "nat option list"
    assume "i \<in> set [0..<Suc n']"
    then have "i < Suc n'" by (simp del: upt_Suc)
    then have "i < length perm" "i < length ?it" using lperm lit by simp_all
    then show "bnd (rdl perm i) (\<lambda>p. bnd (rdl ?it i) (\<lambda>x. wri s p (Some x)))
                 = wri s (perm ! i) (Some (?it ! i))"
      by (simp only: rdl_def if_True sum.case)
  qed
  moreover obtain ir1 where ir1:
    "for_each [0..<Suc n'] (\<lambda>i arr. wri arr (perm ! i) (Some (?it ! i))) index_r = Inr ir1"
    "length ir1 = Suc n'" "\<forall>k<Suc n'. ir1 ! nat (perm ! k) = Some (?it ! k)"
    using scatter_loop[OF perm Suc.prems(3), of ?it] by blast
  ultimately have A: "for_each [0..<nat (ndim t)]
          (\<lambda>i ir. bnd (rdl perm i) (\<lambda>p. bnd (rdl ?it i) (\<lambda>x. wri ir p (Some x)))) index_r
        = Inr ir1" by simp
  have "ir1 = map Some ?js" by (rule scatter_result[OF perm ir1(2) lit ir1(3)])
  then have B: "initialised ir1 = Inr ?js" by simp
  \<comment> \<open>the base offset\<close>
  have C: "IndexToOffset (ndim r) (dim r) (Buf ?js) = Inr ?base"
    unfolding r
    using IndexToOffset_Buf[of ?rds "Suc n'" ?js] lperm
    by (simp add: transpose_offset_def it del: idx_of.simps)
  have D: "rd (dim t) 0 = Inr d0" by (simp add: t(1))
  \<comment> \<open>the copy along the first dimension\<close>
  have dest: "\<And>j. j < d0 \<Longrightarrow> ?base + j * stride = transpose_offset perm ?ds (m * d0 + j)"
    using transpose_offset_row[OF perm len, of _ d0 m] by (simp add: stride)
  have dest_lt: "\<And>j. j < d0 \<Longrightarrow> ?base + j * stride < length ys"
  proof -
    fix j assume j: "j < d0"
    have "transpose_offset perm ?ds (m * d0 + j) < prod_list ?ds"
      by (rule transpose_offset_less[OF perm lds]) (use row[OF j] in simp)
    then show "?base + j * stride < length ys" using dest[OF j] Suc.prems(2) by simp
  qed
  have "\<forall>d\<in>set (take (nat (perm ! 0)) ?rds). 0 < d"
    using transpose_dims_pos[OF perm lds] pos by (auto dest: in_set_takeD)
  then have spos: "0 < stride" unfolding stride by (rule prod_list_pos)
  obtain ys1 where ys1:
    "for_each [0..<d0]
       (\<lambda>j rd1. bnd (rd (Buf xs) (m * d0 + j)) (\<lambda>v. wr rd1 (?base + j * stride) v))
       (Buf ys) = Inr (Buf ys1)"
    "length ys1 = length ys"
    "\<forall>j<d0. ys1 ! (?base + j * stride) = xs ! (m * d0 + j)"
    "\<forall>q. (\<forall>j<d0. q \<noteq> ?base + j * stride) \<longrightarrow> ys1 ! q = ys ! q"
    using copy_loop[of d0 "m * d0" xs ?base stride ys] row dest_lt spos xs by auto
  have E: "for_each [0..<d0]
       (\<lambda>j rd1. bnd (rd (data t) (m * d0 + j)) (\<lambda>v. wr rd1 (?base + j * stride) v))
       (Buf ys) = Inr (Buf ys1)"
    using ys1(1) by (simp only: t(2))
  \<comment> \<open>the next index\<close>
  have F: "NextIndex (ndim t - 1) (ptr_add (dim t) 1) (Buf (drop 1 ?it))
             = Inr (Buf (idx_of dtl (Suc m)))"
    using NextIndex_idx[OF pos(2), of m] len by (simp add: t ptr_add_def)
  have G: "(d0 = 0) = False" using pos(1) by simp
  have step: "Transpose_loop perm t r stride ?N (m * d0) ?it index_r (Buf ys)
                = Transpose_loop perm t r stride ?N (m * d0 + d0)
                    (take 1 ?it @ idx_of dtl (Suc m)) ir1 (Buf ys1)"
    by (subst Transpose_loop.simps)
      (simp only: cond A B C D E F G if_True if_False sum.case buf.case)
  \<comment> \<open>the invariant after the pass\<close>
  have inv: "\<forall>k<Suc m * d0. ys1 ! transpose_offset perm ?ds k = xs ! k"
  proof (intro allI impI)
    fix k assume k: "k < Suc m * d0"
    show "ys1 ! transpose_offset perm ?ds k = xs ! k"
    proof (cases "k < m * d0")
      case True
      have mN: "m * d0 < d0 * prod_list dtl" using row[OF pos(1)] by simp
      have kN: "k < prod_list ?ds" unfolding prodN using True mN by (rule less_trans)
      have "\<forall>j<d0. transpose_offset perm ?ds k \<noteq> ?base + j * stride"
      proof (intro allI impI notI)
        fix j assume j: "j < d0" and e: "transpose_offset perm ?ds k = ?base + j * stride"
        have "transpose_offset perm ?ds k = transpose_offset perm ?ds (m * d0 + j)"
          using e dest[OF j] by simp
        moreover have "m * d0 + j < prod_list ?ds" using row[OF j] by simp
        ultimately have "k = m * d0 + j"
          using transpose_offset_inj[OF perm lds kN] by blast
        then show False using True by simp
      qed
      then have "ys1 ! transpose_offset perm ?ds k = ys ! transpose_offset perm ?ds k"
        using ys1(4) by blast
      then show ?thesis using Suc.prems(4) True by simp
    next
      case False
      define j where "j = k - m * d0"
      have j: "j < d0" "k = m * d0 + j" using False k by (simp_all add: j_def)
      have "ys1 ! (?base + j * stride) = xs ! (m * d0 + j)" using ys1(3) j(1) by blast
      then show ?thesis unfolding j(2) dest[OF j(1)] .
    qed
  qed
  have e1: "m * d0 + d0 = Suc m * d0" by simp
  have e2: "take 1 ?it @ idx_of dtl (Suc m) = 0 # idx_of dtl (Suc m)" by simp
  have step': "Transpose_loop perm t r stride ?N (m * d0) ?it index_r (Buf ys)
                = Transpose_loop perm t r stride ?N (Suc m * d0)
                    (0 # idx_of dtl (Suc m)) ir1 (Buf ys1)"
    using step by (simp only: e1 e2)
  show ?case unfolding step'
  proof (rule Suc.hyps(1))
    show "x = prod_list dtl - Suc m" using Suc.hyps(2) by simp
    show "Suc m \<le> prod_list dtl" using mlt by simp
    show "length ys1 = ?N" using ys1(2) Suc.prems(2) by simp
    show "length ir1 = Suc n'" by (rule ir1(2))
    show "\<forall>k<Suc m * d0. ys1 ! transpose_offset perm ?ds k = xs ! k" by (rule inv)
  qed
qed


lemma idx_of_zero: "idx_of ds 0 = replicate (length ds) 0"
  by (induction ds) simp_all

lemma wf_rank_pos:
  assumes "wf_tensor t" and "1 \<le> ndim t"
  obtains d0 dtl xs where "dims_of t = d0 # dtl" and "dim t = Buf (d0 # dtl)"
    and "data t = Buf xs" and "elems t = xs" and "ndim t = int (Suc (length dtl))"
    and "0 < d0" and "\<forall>d\<in>set dtl. 0 < d" and "length xs = d0 * prod_list dtl"
proof -
  from assms(1) obtain xs where xs: "data t = Buf xs" "elems t = xs"
    "length xs = prod_list (dims_of t)"
    and nd: "ndim t = int (length (dims_of t))" and pos: "\<forall>d\<in>set (dims_of t). 0 < d"
    by (rule wf_tensorE)
  from nd assms(2) obtain d0 dtl where ds: "dims_of t = d0 # dtl"
    by (cases "dims_of t") simp_all
  show thesis
    by (rule that[of d0 dtl xs])
      (use ds xs nd pos wf_dim_Buf[OF assms] in simp_all)
qed

lemma AllocateTensor_Buf:
  assumes "0 < length ds" and "\<forall>d\<in>set ds. 0 < d"
    and "int (prod_list ds) * 16 \<le> SIZE_MAX"
  shows "AllocateTensor (int (length ds)) (Buf ds)
           = Inr \<lparr>data = Buf (replicate (prod_list ds) 0), dim = Buf ds, ndim = int (length ds)\<rparr>"
  using assms(1,2) prod_list_pos[OF assms(2)] algn_calloc_Buf[OF assms(3)]
  by (simp add: AllocateTensor_def NumTensorElements_def IntProduct_Buf)

lemma AllocateTensor_fails:
  assumes "0 < length ds" and "\<forall>d\<in>set ds. 0 < d"
    and "\<not> int (prod_list ds) * 16 \<le> SIZE_MAX"
  shows "AllocateTensor (int (length ds)) (Buf ds) = Inl AssertionFailed"
  using assms(1,2) prod_list_pos[OF assms(2)] algn_calloc_Null[OF assms(3)]
  by (simp add: AllocateTensor_def NumTensorElements_def IntProduct_Buf)

lemma TransposeTensor_eq:
  assumes wf: "wf_tensor t" and r1: "1 \<le> ndim t" and perm: "perm_ok perm (nat (ndim t))"
  shows "TransposeTensor perm t
           = Inr \<lparr>data = Buf (transpose_data perm (dims_of t) (elems t)),
                  dim = Buf (transpose_dims perm (dims_of t)), ndim = ndim t\<rparr>"
proof -
  from wf r1 obtain d0 dtl xs where ds: "dims_of t = d0 # dtl" and dm: "dim t = Buf (d0 # dtl)"
    and dt: "data t = Buf xs" and el: "elems t = xs" and nd: "ndim t = int (Suc (length dtl))"
    and pos: "0 < d0" "\<forall>d\<in>set dtl. 0 < d" and lxs: "length xs = d0 * prod_list dtl"
    by (rule wf_rank_pos)
  define n' where "n' = length dtl"
  let ?ds = "d0 # dtl"
  let ?rds = "transpose_dims perm ?ds"
  let ?N = "d0 * prod_list dtl"
  have nd': "ndim t = int (Suc n')" using nd by (simp add: n'_def)
  have natnd: "nat (ndim t) = Suc n'" using nd' by simp
  have perm': "perm_ok perm (Suc n')" using perm natnd by simp
  have lperm: "length perm = Suc n'" using perm' by (simp add: perm_ok_def)
  have lds: "length ?ds = Suc n'" by (simp add: n'_def)
  have lrds: "length ?rds = Suc n'" using lperm by simp
  have posall: "\<forall>d\<in>set ?ds. 0 < d" using pos by simp
  have rpos: "\<forall>d\<in>set ?rds. 0 < d" by (rule transpose_dims_pos[OF perm' lds posall])
  have rprod: "prod_list ?rds = ?N" using prod_list_transpose_dims[OF perm' lds] by simp
  \<comment> \<open>the dimensions of the result\<close>
  have "for_each [0..<nat (ndim t)]
            (\<lambda>i rdim.
               bnd (rdl perm i) (\<lambda>p.
                 if \<not> (0 \<le> p \<and> p < ndim t) then Inl AssertionFailed
                 else bnd (rd (dim t) i) (\<lambda>d. wri rdim p (Some d))))
            (replicate (nat (ndim t)) None)
        = for_each [0..<Suc n'] (\<lambda>i arr. wri arr (perm ! i) (Some (?ds ! i)))
            (replicate (nat (ndim t)) None)"
    unfolding natnd
  proof (rule for_each_cong)
    fix i and s :: "nat option list"
    assume "i \<in> set [0..<Suc n']"
    then have i: "i < Suc n'" by (simp del: upt_Suc)
    have "0 \<le> perm ! i \<and> perm ! i < ndim t"
      using perm_ok_range(1,2)[OF perm' i] nd' by simp
    moreover have "rd (dim t) i = Inr (?ds ! i)" using i lds by (simp add: dm)
    moreover have "rdl perm i = Inr (perm ! i)" using i lperm by (simp add: rdl_def)
    ultimately show "bnd (rdl perm i) (\<lambda>p.
                 if \<not> (0 \<le> p \<and> p < ndim t) then Inl AssertionFailed
                 else bnd (rd (dim t) i) (\<lambda>d. wri s p (Some d)))
               = wri s (perm ! i) (Some (?ds ! i))"
      by simp
  qed
  moreover obtain rdim1 where rdim1:
    "for_each [0..<Suc n'] (\<lambda>i arr. wri arr (perm ! i) (Some (?ds ! i)))
       (replicate (nat (ndim t)) None) = Inr rdim1"
    "length rdim1 = Suc n'" "\<forall>k<Suc n'. rdim1 ! nat (perm ! k) = Some (?ds ! k)"
    using scatter_loop[OF perm', of "replicate (nat (ndim t)) None" ?ds] natnd by auto
  ultimately have A: "for_each [0..<nat (ndim t)]
            (\<lambda>i rdim.
               bnd (rdl perm i) (\<lambda>p.
                 if \<not> (0 \<le> p \<and> p < ndim t) then Inl AssertionFailed
                 else bnd (rd (dim t) i) (\<lambda>d. wri rdim p (Some d))))
            (replicate (nat (ndim t)) None) = Inr rdim1" by simp
  have "rdim1 = map Some ?rds"
    unfolding transpose_dims_def by (rule scatter_result[OF perm' rdim1(2) lds rdim1(3)])
  then have B: "initialised rdim1 = Inr ?rds" by simp
  \<comment> \<open>the new tensor\<close>
  define r where "r = \<lparr>data = Buf (replicate ?N (0::complex)), dim = Buf ?rds, ndim = ndim t\<rparr>"
  have "0 < length ?rds" using lrds by simp
  moreover have "int (prod_list ?rds) * 16 \<le> SIZE_MAX"
    using wf_tensor_fits[OF wf] unfolding rprod ds by simp
  ultimately have C: "AllocateTensor (ndim t) (Buf ?rds) = Inr r"
    using AllocateTensor_Buf[OF _ rpos] lrds rprod nd' by (simp add: r_def)
  have D: "rdl perm 0 = Inr (perm ! 0)" using lperm by (simp add: rdl_def)
  have p0: "nat (perm ! 0) < Suc n'" using perm_ok_range(3)[OF perm', of 0] by simp
  define stride where "stride = prod_list (take (nat (perm ! 0)) ?rds)"
  have E: "IntProduct (dim r) (perm ! 0) = Inr stride"
    using IntProduct_Buf[of "perm ! 0" ?rds] p0 lrds by (simp add: r_def stride_def)
  have F: "NumTensorElements t = Inr ?N"
    using NumTensorElements_wf[OF wf] ds by simp
  \<comment> \<open>the copy\<close>
  have "\<exists>ys'. Transpose_loop perm t r stride ?N (0 * d0) (0 # idx_of dtl 0)
                 (replicate (nat (ndim t)) None) (Buf (replicate ?N 0)) = Inr (Buf ys')
               \<and> length ys' = ?N
               \<and> (\<forall>k<?N. ys' ! transpose_offset perm ?ds k = xs ! k)"
    by (rule Transpose_loop_correct[OF perm' _ pos dm dt nd' lxs])
      (simp_all add: n'_def r_def nd stride_def)
  then obtain ys where ys:
    "Transpose_loop perm t r stride ?N 0 (replicate (nat (ndim t)) 0)
       (replicate (nat (ndim t)) None) (data r) = Inr (Buf ys)"
    "length ys = ?N" "\<forall>k<?N. ys ! transpose_offset perm ?ds k = xs ! k"
    by (auto simp: idx_of_zero natnd n'_def r_def)
  have "ys = transpose_data perm ?ds xs"
    by (rule transpose_data_unique[OF perm' lds]) (use ys in simp_all)
  then have "r\<lparr>data := Buf ys\<rparr>
               = \<lparr>data = Buf (transpose_data perm (dims_of t) (elems t)),
                  dim = Buf (transpose_dims perm (dims_of t)), ndim = ndim t\<rparr>"
    by (simp add: r_def ds el)
  then show ?thesis
    unfolding TransposeTensor_def by (simp only: A B C D E F ys(1) sum.case)
qed



lemma wf_tensor_mk:
  assumes "0 < length ds" and "\<forall>d\<in>set ds. 0 < d" and "length xs = prod_list ds"
    and "int (prod_list ds) * 16 \<le> SIZE_MAX"
  shows "wf_tensor \<lparr>data = Buf xs, dim = Buf ds, ndim = int (length ds)\<rparr>"
  using assms by (simp add: wf_tensor_def dims_of_def elems_def list_all_iff)

lemma length_transpose_data [simp]: "length (transpose_data perm ds xs) = prod_list ds"
  by (simp add: transpose_data_def)

lemma transpose_data_nth:
  "k < prod_list ds \<Longrightarrow>
     transpose_data perm ds xs ! k = xs ! offs ds (gather perm (idx_of (transpose_dims perm ds) k))"
  by (simp add: transpose_data_def)

lemma TransposeTensor_spec:
  assumes wf: "wf_tensor t" and r1: "1 \<le> ndim t" and perm: "perm_ok perm (nat (ndim t))"
  shows "\<exists>r. TransposeTensor perm t = Inr r \<and> wf_tensor r \<and> ndim r = ndim t
           \<and> (\<forall>k<nat (ndim t). dims_of r ! nat (perm ! k) = dims_of t ! k)
           \<and> (\<forall>is js. valid_index (dims_of t) is \<and> length js = length is
                      \<and> (\<forall>k<length is. js ! nat (perm ! k) = is ! k)
                  \<longrightarrow> elems r ! offs (dims_of r) js = elems t ! offs (dims_of t) is)"
proof -
  define n where "n = nat (ndim t)"
  define ds where "ds = dims_of t"
  define rds where "rds = transpose_dims perm ds"
  define r where "r = \<lparr>data = Buf (transpose_data perm ds (elems t)), dim = Buf rds, ndim = ndim t\<rparr>"
  have run: "TransposeTensor perm t = Inr r"
    using TransposeTensor_eq[OF wf r1 perm] by (simp add: r_def rds_def ds_def)
  from wf have nd: "ndim t = int (length ds)" and pos: "\<forall>d\<in>set ds. 0 < d"
    by (auto elim: wf_tensorE simp: ds_def)
  have lds: "length ds = n" using nd by (simp add: n_def)
  have perm': "perm_ok perm n" using perm by (simp add: n_def)
  have lperm: "length perm = n" using perm' by (simp add: perm_ok_def)
  have n_pos: "0 < n" using r1 by (simp add: n_def)
  have lrds: "length rds = n" using lperm by (simp add: rds_def)
  have rpos: "\<forall>d\<in>set rds. 0 < d"
    unfolding rds_def by (rule transpose_dims_pos[OF perm' lds pos])
  have rprod: "prod_list rds = prod_list ds"
    unfolding rds_def by (rule prod_list_transpose_dims[OF perm' lds])
  have dr: "dims_of r = rds" "elems r = transpose_data perm ds (elems t)" "ndim r = ndim t"
    by (simp_all add: r_def dims_of_def elems_def)
  have "int (prod_list rds) * 16 \<le> SIZE_MAX"
    using wf_tensor_fits[OF wf] rprod by (simp add: ds_def)
  then have wfr: "wf_tensor r"
    using wf_tensor_mk[of rds "transpose_data perm ds (elems t)"] n_pos lrds rpos rprod nd lds
    by (simp add: r_def)
  have dims: "\<forall>k<nat (ndim t). dims_of r ! nat (perm ! k) = dims_of t ! k"
    using transpose_dims_nth[OF perm'] by (simp add: dr rds_def ds_def n_def)
  have vals: "\<forall>is js. valid_index (dims_of t) is \<and> length js = length is
                      \<and> (\<forall>k<length is. js ! nat (perm ! k) = is ! k)
                  \<longrightarrow> elems r ! offs (dims_of r) js = elems t ! offs (dims_of t) is"
  proof (intro allI impI, elim conjE)
    fix "is" js
    assume v: "valid_index (dims_of t) is" and lj: "length js = length is"
      and rel: "\<forall>k<length is. js ! nat (perm ! k) = is ! k"
    have li: "length is = n" using valid_index_length[OF v] lds by (simp add: ds_def)
    have g: "gather perm js = is"
    proof (rule nth_equalityI)
      show "length (gather perm js) = length is" using li lperm by simp
    next
      fix k assume "k < length (gather perm js)"
      then have "k < n" using lperm by simp
      then show "gather perm js ! k = is ! k" using rel li lperm by (simp add: gather_nth)
    qed
    have "js = gather (inv_perm perm) is"
      using gather_inv_gather[OF perm', of js] lj li g by simp
    then have vj: "valid_index rds js"
      using valid_index_scatter[OF perm' lds] v by (simp add: rds_def ds_def)
    have lt: "offs rds js < prod_list ds" using offs_less[OF vj] rprod by simp
    have "transpose_data perm ds (elems t) ! offs rds js
            = elems t ! offs ds (gather perm (idx_of rds (offs rds js)))"
      using transpose_data_nth[OF lt] by (simp add: rds_def)
    also have "\<dots> = elems t ! offs ds is" using idx_of_offs[OF vj] g by simp
    finally show "elems r ! offs (dims_of r) js = elems t ! offs (dims_of t) is"
      by (simp add: dr ds_def)
  qed
  show ?thesis using run wfr dr(3) dims vals by blast
qed

lemma TransposeTensor_roundtrip:
  assumes wf: "wf_tensor t" and r1: "1 \<le> ndim t" and perm: "perm_ok perm (nat (ndim t))"
    and lq: "length pinv = length perm"
    and inv: "\<forall>k<length perm. pinv ! nat (perm ! k) = int k"
  shows "\<exists>r. TransposeTensor perm t = Inr r \<and> TransposeTensor pinv r = Inr t"
proof -
  define n where "n = nat (ndim t)"
  define ds where "ds = dims_of t"
  define xs where "xs = elems t"
  define rds where "rds = transpose_dims perm ds"
  define r where "r = \<lparr>data = Buf (transpose_data perm ds xs), dim = Buf rds, ndim = ndim t\<rparr>"
  have run: "TransposeTensor perm t = Inr r"
    using TransposeTensor_eq[OF wf r1 perm] by (simp add: r_def rds_def ds_def xs_def)
  from wf have nd: "ndim t = int (length ds)" and pos: "\<forall>d\<in>set ds. 0 < d"
    and dt: "data t = Buf xs" and lxs: "length xs = prod_list ds"
    by (auto elim: wf_tensorE simp: ds_def xs_def)
  have dm: "dim t = Buf ds" using wf_dim_Buf[OF wf r1] by (simp add: ds_def)
  have lds: "length ds = n" using nd by (simp add: n_def)
  have perm': "perm_ok perm n" using perm by (simp add: n_def)
  have lperm: "length perm = n" using perm' by (simp add: perm_ok_def)
  have n_pos: "0 < n" using r1 by (simp add: n_def)
  have q: "pinv = inv_perm perm"
    by (rule inverse_unique[OF perm']) (use lq inv lperm in simp_all)
  have perm_q: "perm_ok pinv n" unfolding q by (rule perm_ok_inv_perm[OF perm'])
  have qq: "inv_perm pinv = perm" unfolding q by (rule inv_perm_inv_perm[OF perm'])
  have lrds: "length rds = n" using lperm by (simp add: rds_def)
  have rpos: "\<forall>d\<in>set rds. 0 < d"
    unfolding rds_def by (rule transpose_dims_pos[OF perm' lds pos])
  have rprod: "prod_list rds = prod_list ds"
    unfolding rds_def by (rule prod_list_transpose_dims[OF perm' lds])
  have "int (prod_list rds) * 16 \<le> SIZE_MAX"
    using wf_tensor_fits[OF wf] rprod by (simp add: ds_def)
  then have wfr: "wf_tensor r"
    using wf_tensor_mk[of rds "transpose_data perm ds xs"] n_pos lrds rpos rprod nd lds
    by (simp add: r_def)
  have dr: "dims_of r = rds" "elems r = transpose_data perm ds xs" "ndim r = ndim t"
    by (simp_all add: r_def dims_of_def elems_def)
  have back_dims: "transpose_dims pinv rds = ds"
    using gather_gather_inv[OF perm' lds]
    by (simp add: transpose_dims_def rds_def q inv_perm_inv_perm[OF perm'])
  have "xs = transpose_data pinv rds (transpose_data perm ds xs)"
  proof (rule transpose_data_unique[OF perm_q lrds])
    show "length xs = prod_list rds" using lxs rprod by simp
    show "\<forall>k<prod_list rds. xs ! transpose_offset pinv rds k = transpose_data perm ds xs ! k"
    proof (intro allI impI)
      fix k assume "k < prod_list rds"
      then have k: "k < prod_list ds" using rprod by simp
      have "transpose_offset pinv rds k = offs ds (gather perm (idx_of rds k))"
        by (simp add: transpose_offset_def back_dims qq)
      then show "xs ! transpose_offset pinv rds k = transpose_data perm ds xs ! k"
        using transpose_data_nth[OF k, of perm xs] by (simp add: rds_def)
    qed
  qed
  then have "TransposeTensor pinv r = Inr \<lparr>data = Buf xs, dim = Buf ds, ndim = ndim t\<rparr>"
    using TransposeTensor_eq[of r pinv] wfr r1 perm_q back_dims by (simp add: dr n_def)
  moreover have "t = \<lparr>data = Buf xs, dim = Buf ds, ndim = ndim t\<rparr>"
    using dt dm by simp
  ultimately show ?thesis using run by simp
qed


text \<open>
  C2, as the code has it. On a well-formed tensor \<open>t\<close> of rank \<open>n \<ge> 1\<close> and a
  permutation \<open>perm\<close> of \<open>{0, ..., n - 1}\<close>, \<open>TransposeTensor\<close> returns a well-formed
  tensor \<open>r\<close> of the same rank with \<open>r.dim[perm[k]] = t.dim[k]\<close>, and the entry of
  \<open>r\<close> at the multi-index \<open>js\<close> with \<open>js[perm[k]] = is[k]\<close> is the entry of \<open>t\<close> at
  \<open>is\<close>, for every multi-index \<open>is\<close> of \<open>t\<close>. For the tensor of shape \<open>(2, 3)\<close> with
  column-major data \<open>[1, 2, 3, 4, 5, 6]\<close> and \<open>perm = (1, 0)\<close> the result has shape
  \<open>(3, 2)\<close> and column-major data \<open>[1, 3, 5, 2, 4, 6]\<close>.
\<close>

theorem TransposeTensor_permutes:
  "(wf_tensor t \<and> 1 \<le> ndim t \<and> perm_ok perm (nat (ndim t)) \<longrightarrow>
      (\<exists>r. TransposeTensor perm t = Inr r \<and> wf_tensor r \<and> ndim r = ndim t
          \<and> (\<forall>k<nat (ndim t). dims_of r ! nat (perm ! k) = dims_of t ! k)
          \<and> (\<forall>is js. valid_index (dims_of t) is \<and> length js = length is
                      \<and> (\<forall>k<length is. js ! nat (perm ! k) = is ! k)
                 \<longrightarrow> elems r ! offs (dims_of r) js = elems t ! offs (dims_of t) is)))
   \<and> TransposeTensor [1, 0] \<lparr>data = Buf [1, 2, 3, 4, 5, 6], dim = Buf [2, 3], ndim = 2\<rparr>
       = Inr \<lparr>data = Buf [1, 3, 5, 2, 4, 6], dim = Buf [3, 2], ndim = 2\<rparr>"
proof (intro conjI impI)
  assume "wf_tensor t \<and> 1 \<le> ndim t \<and> perm_ok perm (nat (ndim t))"
  then show "\<exists>r. TransposeTensor perm t = Inr r \<and> wf_tensor r \<and> ndim r = ndim t
          \<and> (\<forall>k<nat (ndim t). dims_of r ! nat (perm ! k) = dims_of t ! k)
          \<and> (\<forall>is js. valid_index (dims_of t) is \<and> length js = length is
                      \<and> (\<forall>k<length is. js ! nat (perm ! k) = is ! k)
                 \<longrightarrow> elems r ! offs (dims_of r) js = elems t ! offs (dims_of t) is)"
    by (intro TransposeTensor_spec) simp_all
next
  show "TransposeTensor [1, 0] \<lparr>data = Buf [1, 2, 3, 4, 5, 6], dim = Buf [2, 3], ndim = 2\<rparr>
       = Inr \<lparr>data = Buf [1, 3, 5, 2, 4, 6], dim = Buf [3, 2], ndim = 2\<rparr>"
    by code_simp
qed

theorem TransposeTensor_permutes_witness:
  "wf_tensor \<lparr>data = Buf [1, 2, 3, 4, 5, 6], dim = Buf [2, 3], ndim = 2\<rparr>
   \<and> perm_ok [1, 0] 2
   \<and> valid_index [2, 3] [1, 2]
   \<and> TransposeTensor [1, 0] \<lparr>data = Buf [1, 2, 3, 4, 5, 6], dim = Buf [2, 3], ndim = 2\<rparr>
       = Inr \<lparr>data = Buf [1, 3, 5, 2, 4, 6], dim = Buf [3, 2], ndim = 2\<rparr>
   \<and> [1, 3, 5, 2, 4, 6 :: complex] ! offs [3, 2] [2, 1] = [1, 2, 3, 4, 5, 6] ! offs [2, 3] [1, 2]"
proof -
  let ?t = "\<lparr>data = Buf [1, 2, 3, 4, 5, 6], dim = Buf [2, 3], ndim = 2\<rparr>"
  have wf: "wf_tensor ?t" by code_simp
  have p: "perm_ok [1, 0] 2" by code_simp
  have v: "valid_index [2, 3] [1, 2]" by code_simp
  have e: "dims_of ?t = [2, 3]" "elems ?t = [1, 2, 3, 4, 5, 6]"
    by (simp_all add: dims_of_def elems_def)
  have rel: "length [2, 1 :: nat] = length [1, 2 :: nat]
       \<and> (\<forall>k<length [1, 2 :: nat]. [2, 1 :: nat] ! nat ([1, 0] ! k) = [1, 2] ! k)"
    by (simp add: less_Suc_eq)
  have "wf_tensor ?t \<and> 1 \<le> ndim ?t \<and> perm_ok [1, 0] (nat (ndim ?t))"
    using wf p by simp
  with TransposeTensor_permutes[of ?t "[1, 0]"]
  obtain r where r: "TransposeTensor [1, 0] ?t = Inr r"
    and r2: "\<forall>is js. valid_index (dims_of ?t) is \<and> length js = length is
                      \<and> (\<forall>k<length is. js ! nat ([1, 0] ! k) = is ! k)
                 \<longrightarrow> elems r ! offs (dims_of r) js = elems ?t ! offs (dims_of ?t) is"
    by blast
  have r3: "elems r ! offs (dims_of r) [2, 1] = elems ?t ! offs (dims_of ?t) [1, 2]"
    using r2[rule_format, of "[1, 2]" "[2, 1]"] v rel unfolding e by blast
  have run: "TransposeTensor [1, 0] ?t
       = Inr \<lparr>data = Buf [1, 3, 5, 2, 4, 6], dim = Buf [3, 2], ndim = 2\<rparr>"
    using TransposeTensor_permutes[of ?t "[1, 0]"] by blast
  then have "r = \<lparr>data = Buf [1, 3, 5, 2, 4, 6], dim = Buf [3, 2], ndim = 2\<rparr>"
    using r by simp
  then have "[1, 3, 5, 2, 4, 6 :: complex] ! offs [3, 2] [2, 1] = [1, 2, 3, 4, 5, 6] ! offs [2, 3] [1, 2]"
    using r3 e by (simp add: dims_of_def elems_def)
  then show ?thesis using wf p v run by blast
qed

text \<open>
  C2 as the spec words it fails in its worked example: the result is not
  \<open>[1, 4, 2, 5, 3, 6]\<close> (that would be the row-major reading of the data).
\<close>

theorem TransposeTensor_example_differs:
  "TransposeTensor [1, 0] \<lparr>data = Buf [1, 2, 3, 4, 5, 6], dim = Buf [2, 3], ndim = 2\<rparr>
     \<noteq> Inr \<lparr>data = Buf [1, 4, 2, 5, 3, 6], dim = Buf [3, 2], ndim = 2\<rparr>"
  by code_simp

text \<open>
  Transposing by a permutation and then by its inverse gives the tensor back, for every
  well-formed tensor of rank at least 1.
\<close>

theorem TransposeTensor_inverse:
  assumes "wf_tensor t" and "1 \<le> ndim t" and "perm_ok perm (nat (ndim t))"
    and "length pinv = length perm" and "\<forall>k<length perm. pinv ! nat (perm ! k) = int k"
  shows "\<exists>r. TransposeTensor perm t = Inr r \<and> TransposeTensor pinv r = Inr t"
  using assms by (rule TransposeTensor_roundtrip)

theorem TransposeTensor_inverse_witness:
  "TransposeTensor [1, 2, 0] \<lparr>data = Buf [1, 2, 3, 4, 5, 6], dim = Buf [1, 2, 3], ndim = 3\<rparr>
     = Inr \<lparr>data = Buf [1, 3, 5, 2, 4, 6], dim = Buf [3, 1, 2], ndim = 3\<rparr>
   \<and> TransposeTensor [2, 0, 1] \<lparr>data = Buf [1, 3, 5, 2, 4, 6], dim = Buf [3, 1, 2], ndim = 3\<rparr>
     = Inr \<lparr>data = Buf [1, 2, 3, 4, 5, 6], dim = Buf [1, 2, 3], ndim = 3\<rparr>"
proof -
  let ?t = "\<lparr>data = Buf [1, 2, 3, 4, 5, 6], dim = Buf [1, 2, 3], ndim = 3\<rparr>"
  have wf: "wf_tensor ?t" by code_simp
  have p: "perm_ok [1, 2, 0] (nat (ndim ?t))" by code_simp
  have i: "\<forall>k<length [1, 2, 0 :: int]. [2, 0, 1] ! nat ([1, 2, 0] ! k) = int k"
    by (simp add: less_Suc_eq)
  have run: "TransposeTensor [1, 2, 0] ?t
     = Inr \<lparr>data = Buf [1, 3, 5, 2, 4, 6], dim = Buf [3, 1, 2], ndim = 3\<rparr>"
    by code_simp
  from TransposeTensor_inverse[OF wf _ p _ i] run show ?thesis by simp
qed

text \<open>
  C9 fails on the code at rank 0: the first of the two transposes reads \<open>perm[0]\<close>
  outside the empty permutation, so the round trip does not give the scalar back.
\<close>

theorem TransposeTensor_roundtrip_rank0:
  "bnd (TransposeTensor [] \<lparr>data = Buf [3], dim = Null, ndim = 0\<rparr>) (TransposeTensor [])
     = Inl OutOfBounds"
  by code_simp


section \<open>Element counts at the kernel boundary\<close>


lemma size_t_to_int_exact: "size_t_to_int n = int n \<longleftrightarrow> n < 2 ^ 31"
proof
  assume a: "size_t_to_int n = int n"
  show "n < 2 ^ 31"
  proof (rule ccontr)
    assume "\<not> n < 2 ^ 31"
    then have n: "2 ^ 31 \<le> int n" by (simp add: numeral_power_le_of_nat_cancel_iff)
    have m: "0 \<le> int n mod 2 ^ 32" "int n mod 2 ^ 32 \<le> int n" "int n mod 2 ^ 32 < 2 ^ 32"
      by (simp_all add: zmod_le_nonneg_dividend)
    show False
    proof (cases "int n mod 2 ^ 32 < 2 ^ 31")
      case True
      then have "size_t_to_int n < 2 ^ 31" by (simp add: size_t_to_int_def Let_def)
      then show False using a n by simp
    next
      case False
      then have "size_t_to_int n = int n mod 2 ^ 32 - 2 ^ 32"
        by (simp add: size_t_to_int_def Let_def)
      then show False using a m by simp
    qed
  qed
next
  assume "n < 2 ^ 31"
  then have "int n < 2 ^ 31" by (simp add: of_nat_less_numeral_power_cancel_iff)
  then show "size_t_to_int n = int n"
    by (simp add: size_t_to_int_def Let_def)
qed

lemma size_t_to_int_le: "nat (size_t_to_int n) \<le> n"
proof -
  have "int n mod 2 ^ 32 \<le> int n" by (simp add: zmod_le_nonneg_dividend)
  then have "size_t_to_int n \<le> int n" by (simp add: size_t_to_int_def Let_def)
  then show ?thesis by simp
qed

lemma cblas_zaxpy_Buf:
  assumes "nat n \<le> length xs" and "nat n \<le> length ys"
  shows "cblas_zaxpy n alpha (Buf xs) (Buf ys)
           = Inr (Buf (map (\<lambda>i. alpha * xs ! i + ys ! i) [0..<nat n] @ drop (nat n) ys))"
  using assms by (cases "n \<le> 0") (simp_all add: cblas_zaxpy_def)

lemma cblas_zdscal_Buf:
  assumes "nat n \<le> length xs"
  shows "cblas_zdscal n alpha (Buf xs)
           = Inr (Buf (map (\<lambda>v. of_real alpha * v) (take (nat n) xs) @ drop (nat n) xs))"
  using assms by (cases "n \<le> 0") (simp_all add: cblas_zdscal_def)

lemma ScalarMultiplyAddTensor_cast:
  assumes a: "wf_tensor s \<and> wf_tensor t \<and> ndim s = ndim t \<and> length (elems s) = length (elems t)"
  shows "ScalarMultiplyAddTensor alpha s t
          = Inr (t\<lparr>data := Buf (map (\<lambda>i. alpha * elems s ! i + elems t ! i)
                                   [0..<nat (size_t_to_int (length (elems s)))]
                                 @ drop (nat (size_t_to_int (length (elems s)))) (elems t))\<rparr>)"
proof -
  from a obtain xs where xs: "data s = Buf xs" "elems s = xs" "length xs = prod_list (dims_of s)"
    by (auto elim: wf_tensorE)
  from a obtain ys where ys: "data t = Buf ys" "elems t = ys" "length ys = prod_list (dims_of t)"
    by (auto elim: wf_tensorE)
  have ns: "NumTensorElements s = Inr (length xs)" "NumTensorElements t = Inr (length ys)"
    using a NumTensorElements_wf xs ys by simp_all
  have le: "nat (size_t_to_int (length xs)) \<le> length xs"
    "nat (size_t_to_int (length xs)) \<le> length ys"
    using size_t_to_int_le[of "length xs"] a xs ys by simp_all
  show ?thesis
    using a ns cblas_zaxpy_Buf[OF le]
    by (simp add: ScalarMultiplyAddTensor_def xs ys)
qed

lemma ScaleTensor_cast:
  assumes wf: "wf_tensor t"
  shows "ScaleTensor a t
          = Inr (t\<lparr>data := Buf (map (\<lambda>v. of_real a * v)
                                   (take (nat (size_t_to_int (length (elems t)))) (elems t))
                                 @ drop (nat (size_t_to_int (length (elems t)))) (elems t))\<rparr>)"
proof -
  from wf obtain ys where ys: "data t = Buf ys" "elems t = ys" "length ys = prod_list (dims_of t)"
    by (auto elim: wf_tensorE)
  have nt: "NumTensorElements t = Inr (length ys)"
    using wf NumTensorElements_wf ys by simp
  show ?thesis
    using nt cblas_zdscal_Buf[OF size_t_to_int_le[of "length ys"]]
    by (simp add: ScaleTensor_def ys)
qed

lemma wf_big:
  "0 < n \<Longrightarrow> int n * 16 \<le> SIZE_MAX \<Longrightarrow>
     wf_tensor \<lparr>data = Buf (replicate n v), dim = Buf [n], ndim = 1\<rparr>"
  by (simp add: wf_tensor_def dims_of_def elems_def)

lemma size_t_to_int_2_31: "size_t_to_int (2 ^ 31) = - (2 ^ 31)"
  by (simp add: size_t_to_int_def Let_def)

lemma ScalarMultiplyAddTensor_nonpositive_count:
  assumes "0 < N" and "size_t_to_int N \<le> 0" and "length xs = N" and "length ys = N"
  shows "ScalarMultiplyAddTensor alpha \<lparr>data = Buf xs, dim = Buf [N], ndim = 1\<rparr>
           \<lparr>data = Buf ys, dim = Buf [N], ndim = 1\<rparr>
         = Inr \<lparr>data = Buf ys, dim = Buf [N], ndim = 1\<rparr>"
proof -
  have "NumTensorElements \<lparr>data = Buf xs, dim = Buf [N], ndim = 1\<rparr> = Inr N"
    "NumTensorElements \<lparr>data = Buf ys, dim = Buf [N], ndim = 1\<rparr> = Inr N"
    by (simp_all add: NumTensorElements_def IntProduct_def)
  then show ?thesis
    using assms(2) by (simp add: ScalarMultiplyAddTensor_def cblas_zaxpy_def)
qed

text \<open>
  C8 fails on the code. For two rank-1 tensors of \<open>2\<^sup>3\<^sup>1\<close> elements the element count
  does not fit a 32-bit signed integer; \<open>ScalarMultiplyAddTensor\<close> does not abort, the
  cast hands the count \<open>-2\<^sup>3\<^sup>1\<close> to the AXPY kernel, and the call returns with the
  destination as it was.
\<close>

theorem ScalarMultiplyAddTensor_count_truncated:
  "size_t_to_int (2 ^ 31) = - (2 ^ 31)
   \<and> ScalarMultiplyAddTensor 1 \<lparr>data = Buf (replicate (2 ^ 31) 1), dim = Buf [2 ^ 31], ndim = 1\<rparr>
       \<lparr>data = Buf (replicate (2 ^ 31) 1), dim = Buf [2 ^ 31], ndim = 1\<rparr>
     = Inr \<lparr>data = Buf (replicate (2 ^ 31) 1), dim = Buf [2 ^ 31], ndim = 1\<rparr>"
proof
  show "size_t_to_int (2 ^ 31) = - (2 ^ 31)" by (rule size_t_to_int_2_31)
  show "ScalarMultiplyAddTensor 1 \<lparr>data = Buf (replicate (2 ^ 31) 1), dim = Buf [2 ^ 31], ndim = 1\<rparr>
       \<lparr>data = Buf (replicate (2 ^ 31) 1), dim = Buf [2 ^ 31], ndim = 1\<rparr>
     = Inr \<lparr>data = Buf (replicate (2 ^ 31) 1), dim = Buf [2 ^ 31], ndim = 1\<rparr>"
  proof (rule ScalarMultiplyAddTensor_nonpositive_count)
    show "size_t_to_int (2 ^ 31) \<le> 0" unfolding size_t_to_int_2_31 by simp
  qed simp_all
qed



section \<open>Contraction\<close>


lemma size_t_to_int_small: "n < 2 ^ 31 \<Longrightarrow> size_t_to_int n = int n"
  by (simp add: size_t_to_int_exact)

lemma cblas_zdotu_sub_Buf:
  assumes "0 < n" and "n \<le> length xs" and "n \<le> length ys"
  shows "cblas_zdotu_sub (int n) (Buf xs) (Buf ys) = Inr (\<Sum>i<n. xs ! i * ys ! i)"
  using assms by (simp add: cblas_zdotu_sub_def)

lemma cblas_zgemv_Trans_Buf:
  assumes "0 < M" and "0 < N" and "length a = M * N" and "length x = M" and "length y = N"
  shows "cblas_zgemv CblasTrans (int M) (int N) 1 (Buf a) (int M) (Buf x) 0 (Buf y)
           = Inr (Buf (map (\<lambda>i. \<Sum>j<M. a ! (j + M * i) * x ! j) [0..<N]))"
proof -
  have "int M * (int N - 1) + int M = int (M * N)" by (simp add: algebra_simps)
  then have e: "nat (int M * (int N - 1) + int M) = M * N" by (simp only: nat_int)
  show ?thesis
    using assms unfolding cblas_zgemv_def e Let_def by simp
qed

lemma cblas_zgemv_NoTrans_Buf:
  assumes "0 < M" and "0 < N" and "length a = M * N" and "length x = N" and "length y = M"
  shows "cblas_zgemv CblasNoTrans (int M) (int N) 1 (Buf a) (int M) (Buf x) 0 (Buf y)
           = Inr (Buf (map (\<lambda>i. \<Sum>j<N. a ! (i + M * j) * x ! j) [0..<M]))"
proof -
  have "int M * (int N - 1) + int M = int (M * N)" by (simp add: algebra_simps)
  then have e: "nat (int M * (int N - 1) + int M) = M * N" by (simp only: nat_int)
  show ?thesis
    using assms unfolding cblas_zgemv_def e Let_def by simp
qed

lemma cblas_zgemm_Buf:
  assumes "0 < M" and "0 < N" and "0 < K"
    and "length a = M * K" and "length b = K * N" and "length c = M * N"
  shows "cblas_zgemm (int M) (int N) (int K) 1 (Buf a) (int M) (Buf b) (int K) 0 (Buf c) (int M)
           = Inr (Buf (map (\<lambda>p. \<Sum>l<K. a ! (p mod M + M * l) * b ! (l + K * (p div M)))
                        [0..<M * N]))"
proof -
  have "int M * (int K - 1) + int M = int (M * K)" "int K * (int N - 1) + int K = int (K * N)"
    "int M * (int N - 1) + int M = int (M * N)" by (simp_all add: algebra_simps)
  then have e: "nat (int M * (int K - 1) + int M) = M * K"
    "nat (int K * (int N - 1) + int K) = K * N"
    "nat (int M * (int N - 1) + int M) = M * N" by (simp_all only: nat_int)
  show ?thesis
    using assms unfolding cblas_zgemm_def e by simp
qed


lemma fill_loop:
  assumes "length pre = off"
  shows "for_each [a..<b] (\<lambda>i arr. wrl arr (off + (i - a)) (Some (f i)))
           (pre @ replicate (b - a) None @ post)
         = Inr (pre @ map (\<lambda>i. Some (f i)) [a..<b] @ post)"
proof (cases "a \<le> b")
  case False
  then show ?thesis by simp
next
  case True
  let ?P = "\<lambda>i arr. arr = pre @ map (\<lambda>i. Some (f i)) [a..<i] @ replicate (b - i) None @ post"
  have "\<exists>s'. for_each [a..<b] (\<lambda>i arr. wrl arr (off + (i - a)) (Some (f i)))
               (pre @ replicate (b - a) None @ post) = Inr s' \<and> ?P b s'"
  proof (rule for_each_upt_inv[where P = ?P, OF True])
    show "?P a (pre @ replicate (b - a) None @ post)" by simp
  next
    fix i arr assume i: "a \<le> i" "i < b" and P: "?P i arr"
    let ?m = "map (\<lambda>i. Some (f i)) [a..<i]"
    have rep: "replicate (b - i) None = None # replicate (b - Suc i) (None :: 'a option)"
      using i(2) by (cases "b - i") (simp_all add: Suc_diff_Suc)
    have arr: "arr = (pre @ ?m) @ None # (replicate (b - Suc i) None @ post)"
      using P rep by simp
    have l: "length (pre @ ?m) = off + (i - a)" using assms i(1) by simp
    have "arr[off + (i - a) := Some (f i)]
            = (pre @ ?m) @ Some (f i) # (replicate (b - Suc i) None @ post)"
      unfolding arr l[symmetric] by (rule list_update_length)
    moreover have "off + (i - a) < length arr" unfolding arr l[symmetric] by simp
    ultimately show "\<exists>s'. wrl arr (off + (i - a)) (Some (f i)) = Inr s' \<and> ?P (Suc i) s'"
      using i(1) by (simp add: wrl_def)
  qed
  then show ?thesis by simp
qed

lemma map_nth_upt_drop: "map (\<lambda>i. xs ! i) [a..<length xs] = drop a xs"
  by (rule nth_equalityI) simp_all

lemma map_nth_upt_take: "n \<le> length xs \<Longrightarrow> map (\<lambda>i. xs ! i) [0..<n] = take n xs"
  by (rule nth_equalityI) simp_all

lemma map_Some_comp: "map (\<lambda>i. Some (f i)) is = map Some (map f is)"
  by simp


lemma contract_data_dot:
  "contract_data (Suc 0) k (Suc 0) xs ys = [\<Sum>b<k. xs ! b * ys ! b]"
  by (simp add: contract_data_def)

lemma contract_data_vm:
  "contract_data (Suc 0) k tdt xs ys = map (\<lambda>i. \<Sum>j<k. ys ! (j + k * i) * xs ! j) [0..<tdt]"
  by (simp add: contract_data_def mult.commute)

lemma contract_data_mv:
  "contract_data lds k (Suc 0) xs ys = map (\<lambda>i. \<Sum>j<k. xs ! (i + lds * j) * ys ! j) [0..<lds]"
  by (simp add: contract_data_def)

lemma MultiplyTensor_dispatch:
  assumes wfs: "wf_tensor s" and wft: "wf_tensor t"
    and m1: "1 \<le> m" and ms: "m \<le> ndim s" and mt: "m \<le> ndim t"
    and shared: "drop (length (dims_of s) - nat m) (dims_of s) = take (nat m) (dims_of t)"
    and ldsE: "lds = prod_list (take (length (dims_of s) - nat m) (dims_of s))"
    and KE: "K = prod_list (take (nat m) (dims_of t))"
    and tdtE: "tdt = prod_list (drop (nat m) (dims_of t))"
    and rdimsE: "rdims = take (length (dims_of s) - nat m) (dims_of s) @ drop (nat m) (dims_of t)"
  shows "MultiplyTensor s t m =
      bnd (AllocateTensor (ndim s + ndim t - 2 * m) (Buf rdims)) (\<lambda>r0.
      (if lds = 1 then
         (if tdt = 1 then
            (if lds * K \<noteq> K * tdt then Inl AssertionFailed
             else
               bnd (NumTensorElements r0) (\<lambda>nelemR.
                 if nelemR \<noteq> 1 then Inl AssertionFailed
                 else
                   bnd (cblas_zdotu_sub (size_t_to_int (lds * K)) (data s) (data t)) (\<lambda>v.
                   bnd (wr (data r0) 0 v) (\<lambda>d. Inr (r0\<lparr>data := d\<rparr>)))))
          else
            bnd (cblas_zgemv CblasTrans (size_t_to_int K) (size_t_to_int tdt) 1
                   (data t) (size_t_to_int K) (data s) 0 (data r0)) (\<lambda>d.
              Inr (r0\<lparr>data := d\<rparr>)))
       else
         (if tdt = 1 then
            bnd (cblas_zgemv CblasNoTrans (size_t_to_int lds) (size_t_to_int K) 1
                   (data s) (size_t_to_int lds) (data t) 0 (data r0)) (\<lambda>d.
              Inr (r0\<lparr>data := d\<rparr>))
          else
            bnd (cblas_zgemm (size_t_to_int lds) (size_t_to_int tdt) (size_t_to_int K) 1
                   (data s) (size_t_to_int lds) (data t) (size_t_to_int K) 0
                   (data r0) (size_t_to_int lds)) (\<lambda>d.
              Inr (r0\<lparr>data := d\<rparr>)))))"
proof -
  define sd where "sd = dims_of s"
  define td where "td = dims_of t"
  define mm where "mm = nat m"
  define p where "p = length sd"
  define q where "q = length td"
  define sk where "sk = take (p - mm) sd"
  define sh where "sh = take mm td"
  define tk where "tk = drop mm td"
  have lds_def: "lds = prod_list sk" by (simp add: ldsE sk_def sd_def p_def mm_def)
  have K_def: "K = prod_list sh" by (simp add: KE sh_def td_def mm_def)
  have tdt_def: "tdt = prod_list tk" by (simp add: tdtE tk_def td_def mm_def)
  have rdims_def: "rdims = sk @ tk" by (simp add: rdimsE sk_def tk_def sd_def td_def p_def mm_def)
  from wfs obtain xs where xs: "data s = Buf xs" "elems s = xs" "length xs = prod_list sd"
    and nds: "ndim s = int p" and poss: "\<forall>d\<in>set sd. 0 < d"
    by (auto elim: wf_tensorE simp: sd_def p_def)
  from wft obtain ys where ys: "data t = Buf ys" "elems t = ys" "length ys = prod_list td"
    and ndt: "ndim t = int q" and post: "\<forall>d\<in>set td. 0 < d"
    by (auto elim: wf_tensorE simp: td_def q_def)
  have mm: "1 \<le> mm" "mm \<le> p" "mm \<le> q" "m = int mm"
    using m1 ms mt nds ndt by (simp_all add: mm_def)
  have dms: "dim s = Buf sd" using wf_dim_Buf[OF wfs] m1 ms by (simp add: sd_def)
  have dmt: "dim t = Buf td" using wf_dim_Buf[OF wft] m1 mt by (simp add: td_def)
  have sh: "drop (p - mm) sd = sh" using shared by (simp add: sd_def td_def p_def mm_def sh_def)
  have sd_split: "sd = sk @ sh" using sh by (simp add: sk_def flip: sh)
  have td_split: "td = sh @ tk" by (simp add: sh_def tk_def)
  have lsh: "length sh = mm" using mm(3) by (simp add: sh_def q_def)
  have lsk: "length sk = p - mm" by (simp add: sk_def p_def)
  have ltk: "length tk = q - mm" by (simp add: tk_def q_def)
  have pos: "\<forall>d\<in>set sk. 0 < d" "\<forall>d\<in>set sh. 0 < d" "\<forall>d\<in>set tk. 0 < d"
    using poss post sd_split td_split by auto
  have gt0: "0 < lds" "0 < K" "0 < tdt"
    using pos prod_list_pos by (simp_all add: lds_def K_def tdt_def)
  have lxs: "length xs = lds * K" using xs(3) sd_split by (simp add: lds_def K_def)
  have lys: "length ys = K * tdt" using ys(3) td_split by (simp add: K_def tdt_def)
  \<comment> \<open>the shared extents agree\<close>
  have A: "for_each [0..<nat m]
               (\<lambda>i u. bnd (rd (dim s) (nat (ndim s - m + int i))) (\<lambda>a.
                        bnd (rd (dim t) i) (\<lambda>b.
                          if a \<noteq> b then Inl AssertionFailed else Inr u)))
               () = Inr ()"
  proof -
    have "\<exists>s'. for_each [0..<nat m]
               (\<lambda>i u. bnd (rd (dim s) (nat (ndim s - m + int i))) (\<lambda>a.
                        bnd (rd (dim t) i) (\<lambda>b.
                          if a \<noteq> b then Inl AssertionFailed else Inr u)))
               () = Inr s' \<and> True"
    proof (rule for_each_upt_inv[where P = "\<lambda>i u. True"])
      fix i and u :: unit assume i: "i < nat m"
      then have i': "i < mm" by (simp add: mm_def)
      have e: "nat (ndim s - m + int i) = p - mm + i" using mm nds by simp
      have "sd ! (p - mm + i) = sh ! i" using sh i' mm by (metis add.commute nth_drop p_def diff_le_self)
      moreover have "td ! i = sh ! i" using i' by (simp add: sh_def)
      moreover have "p - mm + i < length sd" "i < length td" using i' mm by (simp_all add: p_def q_def)
      ultimately show "\<exists>s'. bnd (rd (dim s) (nat (ndim s - m + int i))) (\<lambda>a.
                        bnd (rd (dim t) i) (\<lambda>b.
                          if a \<noteq> b then Inl AssertionFailed else Inr u)) = Inr s' \<and> True"
        by (simp add: e dms dmt)
    qed simp_all
    then show ?thesis by simp
  qed
  \<comment> \<open>the dimensions of the result\<close>
  have e1: "nat (ndim s - m) = p - mm" "nat (ndim s + ndim t - 2 * m) = (p - mm) + (q - mm)"
    "nat (ndim t) = q"
    using mm nds ndt by simp_all
  have B1: "for_each [0..<nat (ndim s - m)]
               (\<lambda>i rdim. bnd (rd (dim s) i) (\<lambda>d. wrl rdim i (Some d)))
               (replicate (nat (ndim s + ndim t - 2 * m)) None)
             = Inr (map Some sk @ replicate (q - mm) None)"
  proof -
    have "for_each [0..<p - mm]
               (\<lambda>i rdim. bnd (rd (dim s) i) (\<lambda>d. wrl rdim i (Some d)))
               (replicate ((p - mm) + (q - mm)) None)
          = for_each [0..<p - mm] (\<lambda>i arr. wrl arr (0 + (i - 0)) (Some (sd ! i)))
               ([] @ replicate (p - mm - 0) None @ replicate (q - mm) None)"
      unfolding replicate_add
    proof (rule for_each_cong[THEN trans])
      fix i and arr :: "nat option list" assume "i \<in> set [0..<p - mm]"
      then have "i < length sd" by (simp add: p_def)
      then show "bnd (rd (dim s) i) (\<lambda>d. wrl arr i (Some d)) = wrl arr (0 + (i - 0)) (Some (sd ! i))"
        by (simp add: dms)
    qed simp
    also have "\<dots> = Inr ([] @ map (\<lambda>i. Some (sd ! i)) [0..<p - mm] @ replicate (q - mm) None)"
      by (rule fill_loop) simp
    also have "map (\<lambda>i. Some (sd ! i)) [0..<p - mm] = map Some sk"
    proof -
      have "p - mm \<le> length sd" by (simp add: p_def)
      from map_nth_upt_take[OF this] have "sk = map (\<lambda>i. sd ! i) [0..<p - mm]"
        by (simp add: sk_def)
      then show ?thesis by (simp add: comp_def)
    qed
    finally show ?thesis by (simp add: e1)
  qed
  have B2: "for_each [nat m..<nat (ndim t)]
               (\<lambda>i rdim. bnd (rd (dim t) i) (\<lambda>d.
                            wri rdim (ndim s + int i - 2 * m) (Some d)))
               (map Some sk @ replicate (q - mm) None)
             = Inr (map Some rdims)"
  proof -
    have "for_each [mm..<q]
               (\<lambda>i rdim. bnd (rd (dim t) i) (\<lambda>d.
                            wri rdim (ndim s + int i - 2 * m) (Some d)))
               (map Some sk @ replicate (q - mm) None)
          = for_each [mm..<q] (\<lambda>i arr. wrl arr ((p - mm) + (i - mm)) (Some (td ! i)))
               (map Some sk @ replicate (q - mm) None @ [])"
    proof (rule for_each_cong[THEN trans])
      fix i and arr :: "nat option list" assume "i \<in> set [mm..<q]"
      then have i: "mm \<le> i" "i < q" by simp_all
      have "ndim s + int i - 2 * m = int ((p - mm) + (i - mm))" using mm i nds by simp
      then have "wri arr (ndim s + int i - 2 * m) (Some (td ! i))
                   = wrl arr ((p - mm) + (i - mm)) (Some (td ! i))"
        by (simp only: wri_def nat_int) simp
      then show "bnd (rd (dim t) i) (\<lambda>d. wri arr (ndim s + int i - 2 * m) (Some d))
                   = wrl arr ((p - mm) + (i - mm)) (Some (td ! i))"
        using i by (simp add: dmt q_def)
    qed simp
    also have "\<dots> = Inr (map Some sk @ map (\<lambda>i. Some (td ! i)) [mm..<q] @ [])"
      by (rule fill_loop) (simp add: lsk)
    also have "map (\<lambda>i. Some (td ! i)) [mm..<q] = map Some tk"
    proof -
      have "tk = map (\<lambda>i. td ! i) [mm..<q]"
        using map_nth_upt_drop[of td mm] by (simp add: tk_def q_def)
      then show ?thesis by (simp add: comp_def)
    qed
    finally show ?thesis by (simp add: e1 mm_def rdims_def)
  qed
  have B3: "initialised (map Some rdims) = Inr rdims" by simp
  have D: "NumTensorElements s = Inr (lds * K)" "NumTensorElements t = Inr (K * tdt)"
    using NumTensorElements_wf[OF wfs] NumTensorElements_wf[OF wft] xs ys lxs lys
    by (simp_all add: sd_def td_def)
  have E: "IntProduct (ptr_add (dim s) (nat (ndim s - m))) m = Inr K"
  proof -
    have pa: "ptr_add (dim s) (nat (ndim s - m)) = Buf sh"
      unfolding dms ptr_add_def e1 by (simp add: sh)
    have "nat m \<le> length sh" using lsh by (simp add: mm_def)
    from IntProduct_Buf[OF this] show ?thesis
      unfolding pa using lsh by (simp add: K_def mm_def)
  qed
  have F: "IntProduct (dim t) m = Inr K"
  proof -
    have "nat m \<le> length td" using mm(3) by (simp add: mm_def q_def)
    from IntProduct_Buf[OF this] show ?thesis
      unfolding dmt by (simp add: K_def sh_def mm_def)
  qed
  have c1: "(\<not> 1 \<le> m) = False" "(\<not> (m \<le> ndim s \<and> m \<le> ndim t)) = False"
    using m1 ms mt by simp_all
  have dv: "lds * K div K = lds" "K * tdt div K = tdt" "(K = 0) = False"
    "(\<not> 0 < lds) = False" "(\<not> 0 < K) = False"
    using gt0 by simp_all
  show ?thesis
  proof (cases "AllocateTensor (ndim s + ndim t - 2 * m) (Buf rdims)")
    case (Inl e)
    show ?thesis
      unfolding MultiplyTensor_def
      by (simp only: c1 if_False A B1 B2 B3 Inl D E F sum.case Let_def dv)
  next
    case (Inr r0)
    show ?thesis
      unfolding MultiplyTensor_def
      by (simp only: c1 if_False A B1 B2 B3 Inr D E F sum.case Let_def dv)
  qed
qed

lemma MultiplyTensor_kernel:
  assumes wfs: "wf_tensor s" and wft: "wf_tensor t"
    and m1: "1 \<le> m" and ms: "m \<le> ndim s" and mt: "m \<le> ndim t"
    and shared: "drop (length (dims_of s) - nat m) (dims_of s) = take (nat m) (dims_of t)"
    and ldsE: "lds = prod_list (take (length (dims_of s) - nat m) (dims_of s))"
    and KE: "K = prod_list (take (nat m) (dims_of t))"
    and tdtE: "tdt = prod_list (drop (nat m) (dims_of t))"
    and rdimsE: "rdims = take (length (dims_of s) - nat m) (dims_of s) @ drop (nat m) (dims_of t)"
    and rdE: "rdm = (if rdims = [] then Null else Buf rdims)"
    and alloc: "int (lds * tdt) * 16 \<le> SIZE_MAX"
  shows "MultiplyTensor s t m =
      (if lds = 1 \<and> tdt = 1 then
         bnd (cblas_zdotu_sub (size_t_to_int (lds * K)) (data s) (data t)) (\<lambda>v.
           Inr \<lparr>data = Buf [v], dim = rdm, ndim = ndim s + ndim t - 2 * m\<rparr>)
       else if lds = 1 then
         bnd (cblas_zgemv CblasTrans (size_t_to_int K) (size_t_to_int tdt) 1
                (data t) (size_t_to_int K) (data s) 0 (Buf (replicate (lds * tdt) 0))) (\<lambda>d.
           Inr \<lparr>data = d, dim = rdm, ndim = ndim s + ndim t - 2 * m\<rparr>)
       else if tdt = 1 then
         bnd (cblas_zgemv CblasNoTrans (size_t_to_int lds) (size_t_to_int K) 1
                (data s) (size_t_to_int lds) (data t) 0 (Buf (replicate (lds * tdt) 0))) (\<lambda>d.
           Inr \<lparr>data = d, dim = rdm, ndim = ndim s + ndim t - 2 * m\<rparr>)
       else
         bnd (cblas_zgemm (size_t_to_int lds) (size_t_to_int tdt) (size_t_to_int K) 1
                (data s) (size_t_to_int lds) (data t) (size_t_to_int K) 0
                (Buf (replicate (lds * tdt) 0)) (size_t_to_int lds)) (\<lambda>d.
           Inr \<lparr>data = d, dim = rdm, ndim = ndim s + ndim t - 2 * m\<rparr>))"
proof -
  define sd where "sd = dims_of s"
  define td where "td = dims_of t"
  define mm where "mm = nat m"
  define p where "p = length sd"
  define q where "q = length td"
  define sk where "sk = take (p - mm) sd"
  define sh where "sh = take mm td"
  define tk where "tk = drop mm td"
  have lds_def: "lds = prod_list sk" by (simp add: ldsE sk_def sd_def p_def mm_def)
  have K_def: "K = prod_list sh" by (simp add: KE sh_def td_def mm_def)
  have tdt_def: "tdt = prod_list tk" by (simp add: tdtE tk_def td_def mm_def)
  have rdims_def: "rdims = sk @ tk" by (simp add: rdimsE sk_def tk_def sd_def td_def p_def mm_def)
  from wfs obtain xs where xs: "data s = Buf xs" "elems s = xs" "length xs = prod_list sd"
    and nds: "ndim s = int p" and poss: "\<forall>d\<in>set sd. 0 < d"
    by (auto elim: wf_tensorE simp: sd_def p_def)
  from wft obtain ys where ys: "data t = Buf ys" "elems t = ys" "length ys = prod_list td"
    and ndt: "ndim t = int q" and post: "\<forall>d\<in>set td. 0 < d"
    by (auto elim: wf_tensorE simp: td_def q_def)
  have mm: "1 \<le> mm" "mm \<le> p" "mm \<le> q" "m = int mm"
    using m1 ms mt nds ndt by (simp_all add: mm_def)
  have dms: "dim s = Buf sd" using wf_dim_Buf[OF wfs] m1 ms by (simp add: sd_def)
  have dmt: "dim t = Buf td" using wf_dim_Buf[OF wft] m1 mt by (simp add: td_def)
  have sh: "drop (p - mm) sd = sh" using shared by (simp add: sd_def td_def p_def mm_def sh_def)
  have sd_split: "sd = sk @ sh" using sh by (simp add: sk_def flip: sh)
  have td_split: "td = sh @ tk" by (simp add: sh_def tk_def)
  have lsh: "length sh = mm" using mm(3) by (simp add: sh_def q_def)
  have lsk: "length sk = p - mm" by (simp add: sk_def p_def)
  have ltk: "length tk = q - mm" by (simp add: tk_def q_def)
  have pos: "\<forall>d\<in>set sk. 0 < d" "\<forall>d\<in>set sh. 0 < d" "\<forall>d\<in>set tk. 0 < d"
    using poss post sd_split td_split by auto
  have gt0: "0 < lds" "0 < K" "0 < tdt"
    using pos prod_list_pos by (simp_all add: lds_def K_def tdt_def)
  have lxs: "length xs = lds * K" using xs(3) sd_split by (simp add: lds_def K_def)
  have lys: "length ys = K * tdt" using ys(3) td_split by (simp add: K_def tdt_def)
  \<comment> \<open>the new tensor\<close>
  define r0 where "r0 = \<lparr>data = Buf (replicate (lds * tdt) (0::complex)),
                          dim = (if rdims = [] then Null else Buf rdims),
                          ndim = ndim s + ndim t - 2 * m\<rparr>"
  have lr: "ndim s + ndim t - 2 * m = int (length rdims)"
    using mm nds ndt lsk ltk by (simp add: rdims_def)
  have rprod: "prod_list rdims = lds * tdt" by (simp add: rdims_def lds_def tdt_def)
  have C: "AllocateTensor (ndim s + ndim t - 2 * m) (Buf rdims) = Inr r0"
  proof (cases "rdims = []")
    case True
    then show ?thesis
      using lr rprod by (simp add: AllocateTensor_def algn_calloc_def SIZE_MAX_def r0_def)
  next
    case False
    then have "0 < length rdims" by simp
    moreover have "\<forall>d\<in>set rdims. 0 < d" using pos by (auto simp: rdims_def)
    moreover have "int (prod_list rdims) * 16 \<le> SIZE_MAX"
      using alloc unfolding rprod .
    ultimately show ?thesis
      using AllocateTensor_Buf[of rdims] False lr rprod by (simp add: r0_def)
  qed
  have G: "NumTensorElements r0 = Inr (lds * tdt)"
    using rprod lr by (cases "rdims = []")
      (simp_all add: r0_def NumTensorElements_def IntProduct_Buf IntProduct_zero)
  have dr0: "data r0 = Buf (replicate (lds * tdt) 0)" by (simp add: r0_def)
  have body: "MultiplyTensor s t m =
      (if lds = 1 then
         (if tdt = 1 then
            (if lds * K \<noteq> K * tdt then Inl AssertionFailed
             else
               bnd (NumTensorElements r0) (\<lambda>nelemR.
                 if nelemR \<noteq> 1 then Inl AssertionFailed
                 else
                   bnd (cblas_zdotu_sub (size_t_to_int (lds * K)) (data s) (data t)) (\<lambda>v.
                   bnd (wr (data r0) 0 v) (\<lambda>d. Inr (r0\<lparr>data := d\<rparr>)))))
          else
            bnd (cblas_zgemv CblasTrans (size_t_to_int K) (size_t_to_int tdt) 1
                   (data t) (size_t_to_int K) (data s) 0 (data r0)) (\<lambda>d.
              Inr (r0\<lparr>data := d\<rparr>)))
       else
         (if tdt = 1 then
            bnd (cblas_zgemv CblasNoTrans (size_t_to_int lds) (size_t_to_int K) 1
                   (data s) (size_t_to_int lds) (data t) 0 (data r0)) (\<lambda>d.
              Inr (r0\<lparr>data := d\<rparr>))
          else
            bnd (cblas_zgemm (size_t_to_int lds) (size_t_to_int tdt) (size_t_to_int K) 1
                   (data s) (size_t_to_int lds) (data t) (size_t_to_int K) 0
                   (data r0) (size_t_to_int lds)) (\<lambda>d.
              Inr (r0\<lparr>data := d\<rparr>))))"
    using MultiplyTensor_dispatch[OF wfs wft m1 ms mt shared ldsE KE tdtE rdimsE]
    by (simp only: C sum.case)
  have upd: "\<And>d. r0\<lparr>data := d\<rparr> = \<lparr>data = d, dim = rdm, ndim = ndim s + ndim t - 2 * m\<rparr>"
    by (simp add: r0_def rdE)
  show ?thesis
  proof (cases "lds = 1")
    case l1: True
    show ?thesis
    proof (cases "tdt = 1")
      case True
      have c: "(lds * K \<noteq> K * tdt) = False" "(Suc 0 \<noteq> 1) = False" "(lds = 1 \<and> tdt = 1) = True"
        "(lds = 1) = True" "(tdt = 1) = True"
        using l1 True by simp_all
      have g: "NumTensorElements r0 = Inr (Suc 0)" using G l1 True by simp
      have w: "\<And>v. wr (data r0) 0 v = Inr (Buf [v])" using l1 True by (simp add: dr0)
      show ?thesis
        unfolding body by (simp only: c simp_thms if_True if_False g w sum.case upd)
    next
      case False
      then have c: "(lds = 1 \<and> tdt = 1) = False" "(lds = 1) = True" "(tdt = 1) = False"
        using l1 by simp_all
      show ?thesis
        unfolding body by (simp only: c simp_thms if_True if_False dr0 upd)
    qed
  next
    case l1: False
    show ?thesis
    proof (cases "tdt = 1")
      case True
      then have c: "(lds = 1 \<and> tdt = 1) = False" "(lds = 1) = False" "(tdt = 1) = True"
        using l1 by simp_all
      show ?thesis
        unfolding body by (simp only: c simp_thms if_True if_False dr0 upd)
    next
      case False
      then have c: "(lds = 1 \<and> tdt = 1) = False" "(lds = 1) = False" "(tdt = 1) = False"
        using l1 by simp_all
      show ?thesis
        unfolding body by (simp only: c simp_thms if_True if_False dr0 upd)
    qed
  qed
qed

lemma MultiplyTensor_eq:
  assumes wfs: "wf_tensor s" and wft: "wf_tensor t"
    and m1: "1 \<le> m" and ms: "m \<le> ndim s" and mt: "m \<le> ndim t"
    and shared: "drop (length (dims_of s) - nat m) (dims_of s) = take (nat m) (dims_of t)"
    and small: "prod_list (take (length (dims_of s) - nat m) (dims_of s)) < 2 ^ 31"
      "prod_list (take (nat m) (dims_of t)) < 2 ^ 31"
      "prod_list (drop (nat m) (dims_of t)) < 2 ^ 31"
    and alloc: "int (prod_list (take (length (dims_of s) - nat m) (dims_of s))
                     * prod_list (drop (nat m) (dims_of t))) * 16 \<le> SIZE_MAX"
  shows "MultiplyTensor s t m
           = Inr \<lparr>data = Buf (contract_data
                               (prod_list (take (length (dims_of s) - nat m) (dims_of s)))
                               (prod_list (take (nat m) (dims_of t)))
                               (prod_list (drop (nat m) (dims_of t)))
                               (elems s) (elems t)),
                  dim = (if take (length (dims_of s) - nat m) (dims_of s) @ drop (nat m) (dims_of t) = []
                         then Null
                         else Buf (take (length (dims_of s) - nat m) (dims_of s)
                                   @ drop (nat m) (dims_of t))),
                  ndim = ndim s + ndim t - 2 * m\<rparr>"
proof -
  define sd where "sd = dims_of s"
  define td where "td = dims_of t"
  define mm where "mm = nat m"
  define p where "p = length sd"
  define q where "q = length td"
  define sk where "sk = take (p - mm) sd"
  define sh where "sh = take mm td"
  define tk where "tk = drop mm td"
  define lds where "lds = prod_list sk"
  define K where "K = prod_list sh"
  define tdt where "tdt = prod_list tk"
  define rdims where "rdims = sk @ tk"
  from wfs obtain xs where xs: "data s = Buf xs" "elems s = xs" "length xs = prod_list sd"
    and nds: "ndim s = int p" and poss: "\<forall>d\<in>set sd. 0 < d"
    by (auto elim: wf_tensorE simp: sd_def p_def)
  from wft obtain ys where ys: "data t = Buf ys" "elems t = ys" "length ys = prod_list td"
    and ndt: "ndim t = int q" and post: "\<forall>d\<in>set td. 0 < d"
    by (auto elim: wf_tensorE simp: td_def q_def)
  have mm: "1 \<le> mm" "mm \<le> p" "mm \<le> q" "m = int mm"
    using m1 ms mt nds ndt by (simp_all add: mm_def)
  have dms: "dim s = Buf sd" using wf_dim_Buf[OF wfs] m1 ms by (simp add: sd_def)
  have dmt: "dim t = Buf td" using wf_dim_Buf[OF wft] m1 mt by (simp add: td_def)
  have sh: "drop (p - mm) sd = sh" using shared by (simp add: sd_def td_def p_def mm_def sh_def)
  have sd_split: "sd = sk @ sh" using sh by (simp add: sk_def flip: sh)
  have td_split: "td = sh @ tk" by (simp add: sh_def tk_def)
  have lsh: "length sh = mm" using mm(3) by (simp add: sh_def q_def)
  have lsk: "length sk = p - mm" by (simp add: sk_def p_def)
  have ltk: "length tk = q - mm" by (simp add: tk_def q_def)
  have pos: "\<forall>d\<in>set sk. 0 < d" "\<forall>d\<in>set sh. 0 < d" "\<forall>d\<in>set tk. 0 < d"
    using poss post sd_split td_split by auto
  have gt0: "0 < lds" "0 < K" "0 < tdt"
    using pos prod_list_pos by (simp_all add: lds_def K_def tdt_def)
  have lxs: "length xs = lds * K" using xs(3) sd_split by (simp add: lds_def K_def)
  have lys: "length ys = K * tdt" using ys(3) td_split by (simp add: K_def tdt_def)
  have sm: "lds < 2 ^ 31" "K < 2 ^ 31" "tdt < 2 ^ 31"
    using small by (simp_all add: lds_def K_def tdt_def sk_def sh_def tk_def sd_def td_def p_def mm_def)
  have cast: "size_t_to_int lds = int lds" "size_t_to_int K = int K" "size_t_to_int tdt = int tdt"
    using sm by (simp_all add: size_t_to_int_small)
  \<comment> \<open>the new tensor\<close>
  define r0 where "r0 = \<lparr>data = Buf (replicate (lds * tdt) (0::complex)),
                          dim = (if rdims = [] then Null else Buf rdims),
                          ndim = ndim s + ndim t - 2 * m\<rparr>"
  have lr: "ndim s + ndim t - 2 * m = int (length rdims)"
    using mm nds ndt lsk ltk by (simp add: rdims_def)
  have rprod: "prod_list rdims = lds * tdt" by (simp add: rdims_def lds_def tdt_def)
  have C: "AllocateTensor (ndim s + ndim t - 2 * m) (Buf rdims) = Inr r0"
  proof (cases "rdims = []")
    case True
    then show ?thesis
      using lr rprod by (simp add: AllocateTensor_def algn_calloc_def SIZE_MAX_def r0_def)
  next
    case False
    then have "0 < length rdims" by simp
    moreover have "\<forall>d\<in>set rdims. 0 < d" using pos by (auto simp: rdims_def)
    moreover have "int (prod_list rdims) * 16 \<le> SIZE_MAX"
      using alloc unfolding rprod
      by (simp add: lds_def tdt_def sk_def tk_def sd_def td_def p_def mm_def)
    ultimately show ?thesis
      using AllocateTensor_Buf[of rdims] False lr rprod by (simp add: r0_def)
  qed
  have G: "NumTensorElements r0 = Inr (lds * tdt)"
    using rprod lr by (cases "rdims = []")
      (simp_all add: r0_def NumTensorElements_def IntProduct_Buf IntProduct_zero)
  have dr0: "data r0 = Buf (replicate (lds * tdt) 0)" by (simp add: r0_def)
  have body: "MultiplyTensor s t m =
      (if lds = 1 then
         (if tdt = 1 then
            (if lds * K \<noteq> K * tdt then Inl AssertionFailed
             else
               bnd (NumTensorElements r0) (\<lambda>nelemR.
                 if nelemR \<noteq> 1 then Inl AssertionFailed
                 else
                   bnd (cblas_zdotu_sub (size_t_to_int (lds * K)) (data s) (data t)) (\<lambda>v.
                   bnd (wr (data r0) 0 v) (\<lambda>d. Inr (r0\<lparr>data := d\<rparr>)))))
          else
            bnd (cblas_zgemv CblasTrans (size_t_to_int K) (size_t_to_int tdt) 1
                   (data t) (size_t_to_int K) (data s) 0 (data r0)) (\<lambda>d.
              Inr (r0\<lparr>data := d\<rparr>)))
       else
         (if tdt = 1 then
            bnd (cblas_zgemv CblasNoTrans (size_t_to_int lds) (size_t_to_int K) 1
                   (data s) (size_t_to_int lds) (data t) 0 (data r0)) (\<lambda>d.
              Inr (r0\<lparr>data := d\<rparr>))
          else
            bnd (cblas_zgemm (size_t_to_int lds) (size_t_to_int tdt) (size_t_to_int K) 1
                   (data s) (size_t_to_int lds) (data t) (size_t_to_int K) 0
                   (data r0) (size_t_to_int lds)) (\<lambda>d.
              Inr (r0\<lparr>data := d\<rparr>))))"
  proof -
    have "lds = prod_list (take (length (dims_of s) - nat m) (dims_of s))"
      "K = prod_list (take (nat m) (dims_of t))"
      "tdt = prod_list (drop (nat m) (dims_of t))"
      "rdims = take (length (dims_of s) - nat m) (dims_of s) @ drop (nat m) (dims_of t)"
      by (simp_all add: lds_def K_def tdt_def rdims_def sk_def sh_def tk_def sd_def td_def
          p_def mm_def)
    from MultiplyTensor_dispatch[OF wfs wft m1 ms mt shared this]
    show ?thesis by (simp only: C sum.case)
  qed
  have final: "r0\<lparr>data := Buf (contract_data lds K tdt xs ys)\<rparr>
         = \<lparr>data = Buf (contract_data lds K tdt xs ys),
            dim = (if rdims = [] then Null else Buf rdims),
            ndim = ndim s + ndim t - 2 * m\<rparr>"
    by (simp add: r0_def)
  have "MultiplyTensor s t m = Inr (r0\<lparr>data := Buf (contract_data lds K tdt xs ys)\<rparr>)"
  proof (cases "lds = 1")
    case l1: True
    show ?thesis
    proof (cases "tdt = 1")
      case True
      have "cblas_zdotu_sub (int K) (Buf xs) (Buf ys) = Inr (\<Sum>i<K. xs ! i * ys ! i)"
        by (rule cblas_zdotu_sub_Buf) (use gt0 lxs lys l1 True in simp_all)
      then show ?thesis
        unfolding body using l1 True G cast
        by (simp add: xs ys dr0 contract_data_dot)
    next
      case False
      have "cblas_zgemv CblasTrans (int K) (int tdt) 1 (Buf ys) (int K) (Buf xs) 0
              (Buf (replicate (lds * tdt) 0))
            = Inr (Buf (map (\<lambda>i. \<Sum>j<K. ys ! (j + K * i) * xs ! j) [0..<tdt]))"
        by (rule cblas_zgemv_Trans_Buf) (use gt0 lxs lys l1 in simp_all)
      then show ?thesis
        unfolding body using l1 False cast
        by (simp add: xs ys dr0 contract_data_vm)
    qed
  next
    case l1: False
    show ?thesis
    proof (cases "tdt = 1")
      case True
      have "cblas_zgemv CblasNoTrans (int lds) (int K) 1 (Buf xs) (int lds) (Buf ys) 0
              (Buf (replicate (lds * tdt) 0))
            = Inr (Buf (map (\<lambda>i. \<Sum>j<K. xs ! (i + lds * j) * ys ! j) [0..<lds]))"
        by (rule cblas_zgemv_NoTrans_Buf) (use gt0 lxs lys True in simp_all)
      then show ?thesis
        unfolding body using l1 True cast
        by (simp add: xs ys dr0 contract_data_mv)
    next
      case False
      have "cblas_zgemm (int lds) (int tdt) (int K) 1 (Buf xs) (int lds) (Buf ys) (int K) 0
              (Buf (replicate (lds * tdt) 0)) (int lds)
            = Inr (Buf (contract_data lds K tdt xs ys))"
        unfolding contract_data_def
        by (rule cblas_zgemm_Buf) (use gt0 lxs lys in simp_all)
      then show ?thesis
        unfolding body using l1 False cast
        by (simp add: xs ys dr0)
    qed
  qed
  then show ?thesis
    unfolding final
    by (simp add: xs ys lds_def K_def tdt_def rdims_def sk_def sh_def tk_def sd_def td_def
        p_def mm_def)
qed


lemma bij_betw_offs: "bij_betw (offs ds) {b. valid_index ds b} {..<prod_list ds}"
  by (rule bij_betw_byWitness[where f' = "idx_of ds"])
    (auto simp: idx_of_offs offs_idx_of offs_less valid_idx_of)

lemma sum_valid_index:
  fixes f :: "nat \<Rightarrow> complex"
  shows "(\<Sum>b\<in>{b. valid_index ds b}. f (offs ds b)) = (\<Sum>k<prod_list ds. f k)"
  by (rule sum.reindex_bij_betw[OF bij_betw_offs])

lemma contract_data_nth:
  assumes "i < lds" and "j < tdt"
  shows "contract_data lds k tdt xs ys ! (i + lds * j)
           = (\<Sum>b<k. xs ! (i + lds * b) * ys ! (b + k * j))"
proof -
  have "i + lds * j < lds + lds * j" using assms(1) by simp
  also have "\<dots> = lds * Suc j" by simp
  also have "\<dots> \<le> lds * tdt" using assms(2) by (intro mult_le_mono2) simp
  finally have lt: "i + lds * j < lds * tdt" .
  have "(i + lds * j) mod lds = i" "(i + lds * j) div lds = j" using assms(1) by simp_all
  then show ?thesis using lt by (simp add: contract_data_def)
qed

lemma length_contract_data [simp]: "length (contract_data lds k tdt xs ys) = lds * tdt"
  by (simp add: contract_data_def)

lemma MultiplyTensor_spec:
  assumes wfs: "wf_tensor s" and wft: "wf_tensor t"
    and m1: "1 \<le> m" and ms: "m \<le> ndim s" and mt: "m \<le> ndim t"
    and match: "\<forall>i<nat m. dims_of s ! (nat (ndim s - m) + i) = dims_of t ! i"
    and small: "prod_list (kept_s s m) < 2 ^ 31" "prod_list (shared_t t m) < 2 ^ 31"
      "prod_list (kept_t t m) < 2 ^ 31"
    and alloc: "int (prod_list (kept_s s m) * prod_list (kept_t t m)) * 16 \<le> SIZE_MAX"
  shows "\<exists>r. MultiplyTensor s t m = Inr r \<and> wf_tensor r
           \<and> ndim r = ndim s + ndim t - 2 * m
           \<and> dims_of r = kept_s s m @ kept_t t m
           \<and> elems r = contract_data (prod_list (kept_s s m)) (prod_list (shared_t t m))
                          (prod_list (kept_t t m)) (elems s) (elems t)
           \<and> (\<forall>a c. valid_index (kept_s s m) a \<and> valid_index (kept_t t m) c \<longrightarrow>
                  elems r ! offs (dims_of r) (a @ c)
                    = (\<Sum>b\<in>{b. valid_index (shared_t t m) b}.
                         elems s ! offs (dims_of s) (a @ b) * elems t ! offs (dims_of t) (b @ c)))
           \<and> (\<forall>i<prod_list (kept_s s m). \<forall>j<prod_list (kept_t t m).
                  elems r ! (i + prod_list (kept_s s m) * j)
                    = (\<Sum>b<prod_list (shared_t t m).
                         elems s ! (i + prod_list (kept_s s m) * b)
                         * elems t ! (b + prod_list (shared_t t m) * j)))"
proof -
  define sd where "sd = dims_of s"
  define td where "td = dims_of t"
  define sk where "sk = kept_s s m"
  define sh where "sh = shared_t t m"
  define tk where "tk = kept_t t m"
  define lds where "lds = prod_list sk"
  define K where "K = prod_list sh"
  define tdt where "tdt = prod_list tk"
  define xs where "xs = elems s"
  define ys where "ys = elems t"
  define rdims where "rdims = sk @ tk"
  define r where "r = \<lparr>data = Buf (contract_data lds K tdt xs ys),
                        dim = (if rdims = [] then Null else Buf rdims),
                        ndim = ndim s + ndim t - 2 * m\<rparr>"
  from wfs have nds: "ndim s = int (length sd)" and poss: "\<forall>d\<in>set sd. 0 < d"
    by (auto elim: wf_tensorE simp: sd_def)
  from wft have ndt: "ndim t = int (length td)" and post: "\<forall>d\<in>set td. 0 < d"
    by (auto elim: wf_tensorE simp: td_def)
  have mm: "nat m \<le> length sd" "nat m \<le> length td" "0 < nat m"
    using m1 ms mt nds ndt by simp_all
  have e: "nat (ndim s - m) = length sd - nat m" using nds m1 by simp
  have shared: "drop (length sd - nat m) sd = take (nat m) td"
  proof (rule nth_equalityI)
    show "length (drop (length sd - nat m) sd) = length (take (nat m) td)" using mm by simp
  next
    fix i assume "i < length (drop (length sd - nat m) sd)"
    then have i: "i < nat m" using mm by simp
    then show "drop (length sd - nat m) sd ! i = take (nat m) td ! i"
      using match mm e by (simp add: sd_def td_def)
  qed
  have run: "MultiplyTensor s t m = Inr r"
    using MultiplyTensor_eq[OF wfs wft m1 ms mt] shared small alloc
    by (simp add: r_def rdims_def sk_def sh_def tk_def lds_def K_def tdt_def xs_def ys_def
        kept_s_def shared_t_def kept_t_def sd_def td_def)
  have "sd = take (length sd - nat m) sd @ drop (length sd - nat m) sd" by simp
  then have "sd = take (length sd - nat m) sd @ take (nat m) td" unfolding shared .
  then have sd_split: "sd = sk @ sh"
    by (simp add: sk_def sh_def kept_s_def shared_t_def sd_def td_def)
  have td_split: "td = sh @ tk" by (simp add: sh_def tk_def shared_t_def kept_t_def td_def)
  have pos: "\<forall>d\<in>set sk. 0 < d" "\<forall>d\<in>set tk. 0 < d"
    using poss post sd_split td_split by auto
  have lr: "ndim s + ndim t - 2 * m = int (length rdims)"
    using mm nds ndt m1 by (simp add: rdims_def sk_def tk_def kept_s_def kept_t_def sd_def td_def)
  have dr: "dims_of r = rdims" "elems r = contract_data lds K tdt xs ys"
    by (simp_all add: r_def dims_of_def elems_def)
  have "int (lds * tdt) * 16 \<le> SIZE_MAX"
    using alloc by (simp add: lds_def tdt_def sk_def tk_def)
  then have wfr: "wf_tensor r"
    using lr pos by (auto simp: wf_tensor_def r_def dims_of_def elems_def list_all_iff rdims_def
        lds_def tdt_def)
  have multi: "\<forall>a c. valid_index sk a \<and> valid_index tk c \<longrightarrow>
                  elems r ! offs (dims_of r) (a @ c)
                    = (\<Sum>b\<in>{b. valid_index sh b}.
                         xs ! offs sd (a @ b) * ys ! offs td (b @ c))"
  proof (intro allI impI, elim conjE)
    fix a c assume va: "valid_index sk a" and vc: "valid_index tk c"
    have la: "length sk = length a" using valid_index_length[OF va] by simp
    have i: "offs sk a < lds" using offs_less[OF va] by (simp add: lds_def)
    have j: "offs tk c < tdt" using offs_less[OF vc] by (simp add: tdt_def)
    have "elems r ! offs (dims_of r) (a @ c) = contract_data lds K tdt xs ys ! (offs sk a + lds * offs tk c)"
      by (simp add: dr rdims_def offs_append[OF la] lds_def)
    also have "\<dots> = (\<Sum>k<K. xs ! (offs sk a + lds * k) * ys ! (k + K * offs tk c))"
      by (rule contract_data_nth[OF i j])
    also have "\<dots> = (\<Sum>b\<in>{b. valid_index sh b}.
                        xs ! (offs sk a + lds * offs sh b) * ys ! (offs sh b + K * offs tk c))"
      unfolding K_def
      by (rule sum_valid_index[symmetric, where f = "\<lambda>k. xs ! (offs sk a + lds * k) * ys ! (k + prod_list sh * offs tk c)"])
    also have "\<dots> = (\<Sum>b\<in>{b. valid_index sh b}. xs ! offs sd (a @ b) * ys ! offs td (b @ c))"
    proof (rule sum.cong[OF refl])
      fix b assume "b \<in> {b. valid_index sh b}"
      then have lb: "length sh = length b" by (simp add: valid_index_length)
      show "xs ! (offs sk a + lds * offs sh b) * ys ! (offs sh b + K * offs tk c)
              = xs ! offs sd (a @ b) * ys ! offs td (b @ c)"
        unfolding sd_split td_split by (simp add: offs_append[OF la] offs_append[OF lb] lds_def K_def)
    qed
    finally show "elems r ! offs (dims_of r) (a @ c)
                    = (\<Sum>b\<in>{b. valid_index sh b}. xs ! offs sd (a @ b) * ys ! offs td (b @ c))" .
  qed
  have flat: "\<forall>i<lds. \<forall>j<tdt. elems r ! (i + lds * j)
                    = (\<Sum>b<K. xs ! (i + lds * b) * ys ! (b + K * j))"
    using contract_data_nth by (simp add: dr)
  show ?thesis
    apply (rule exI[of _ r])
    using run wfr lr multi flat dr
    unfolding sd_def td_def sk_def sh_def tk_def lds_def K_def tdt_def xs_def ys_def rdims_def
    apply (simp add: r_def)
    done
qed


lemma MultiplyTensor_dot_nonpositive_count:
  assumes "0 < N" and "size_t_to_int N \<le> 0" and "length xs = N" and "length ys = N"
  shows "MultiplyTensor \<lparr>data = Buf xs, dim = Buf [N], ndim = 1\<rparr>
           \<lparr>data = Buf ys, dim = Buf [N], ndim = 1\<rparr> 1
         = Inr \<lparr>data = Buf [0], dim = Null, ndim = 0\<rparr>"
proof -
  have n: "NumTensorElements \<lparr>data = Buf xs, dim = Buf [N], ndim = 1\<rparr> = Inr N"
    "NumTensorElements \<lparr>data = Buf ys, dim = Buf [N], ndim = 1\<rparr> = Inr N"
    by (simp_all add: NumTensorElements_def IntProduct_def)
  have a: "AllocateTensor 0 (Buf []) = Inr \<lparr>data = Buf [0], dim = Null, ndim = 0\<rparr>"
    by (rule AllocateTensor_scalar)
  have n0: "NumTensorElements \<lparr>data = Buf [0], dim = Null, ndim = 0\<rparr> = Inr 1"
    by (simp add: NumTensorElements_def IntProduct_def)
  have ip: "IntProduct (Buf [N]) 1 = Inr N" by (simp add: IntProduct_def)
  have k: "cblas_zdotu_sub (size_t_to_int N) (Buf xs) (Buf ys) = Inr 0"
    using assms(2) by (simp add: cblas_zdotu_sub_def)
  show ?thesis
    using assms(1)
    by (simp add: MultiplyTensor_def n a n0 ip k ptr_add_def initialised_def)
qed

lemma dotu_replicate: "dotu (replicate n x) (replicate n y) = of_nat n * (x * y)"
  by (simp add: dotu_def)


text \<open>
  C1, as the code has it. For well-formed tensors \<open>S\<close> of rank \<open>p\<close> and \<open>T\<close> of rank
  \<open>q\<close>, \<open>1 \<le> m \<le> min p q\<close> with \<open>S.dim[p - m + i] = T.dim[i]\<close> for \<open>i < m\<close>, and with
  the three extents \<open>LDS\<close>, \<open>K\<close>, \<open>TDT\<close> of the matrix views below \<open>2\<^sup>3\<^sup>1\<close> (they are cast
  to \<open>int\<close> for the kernel), with a result that can be allocated (\<open>16 LDS TDT\<close> bytes,
  at most \<open>SIZE_MAX\<close>) and with \<open>p + q < 2\<^sup>3\<^sup>1\<close> (ranks are \<open>int\<close>s),
  \<open>MultiplyTensor\<close> returns a well-formed tensor \<open>R\<close> of rank
  \<open>p + q - 2m\<close> whose dimensions are the kept leading dimensions of \<open>S\<close> followed by the
  kept trailing dimensions of \<open>T\<close>, with \<open>R[a, c] = \<Sum>\<^sub>b S[a, b] T[b, c]\<close> over the
  multi-indices \<open>b\<close> of the shared axes: the column-major product of \<open>S\<close> viewed as
  \<open>(LDS, K)\<close> and \<open>T\<close> viewed as \<open>(K, TDT)\<close>.
\<close>

theorem MultiplyTensor_contracts:
  assumes "wf_tensor s" and "wf_tensor t"
    and "1 \<le> m" and "m \<le> ndim s" and "m \<le> ndim t"
    and "\<forall>i<nat m. dims_of s ! (nat (ndim s - m) + i) = dims_of t ! i"
    and "prod_list (kept_s s m) < 2 ^ 31" and "prod_list (shared_t t m) < 2 ^ 31"
    and "prod_list (kept_t t m) < 2 ^ 31"
    and "int (prod_list (kept_s s m) * prod_list (kept_t t m)) * 16 \<le> SIZE_MAX"
    and "ndim s + ndim t < 2 ^ 31"
  shows "\<exists>r. MultiplyTensor s t m = Inr r \<and> wf_tensor r
           \<and> ndim r = ndim s + ndim t - 2 * m
           \<and> dims_of r = kept_s s m @ kept_t t m
           \<and> elems r = contract_data (prod_list (kept_s s m)) (prod_list (shared_t t m))
                          (prod_list (kept_t t m)) (elems s) (elems t)
           \<and> (\<forall>a c. valid_index (kept_s s m) a \<and> valid_index (kept_t t m) c \<longrightarrow>
                  elems r ! offs (dims_of r) (a @ c)
                    = (\<Sum>b\<in>{b. valid_index (shared_t t m) b}.
                         elems s ! offs (dims_of s) (a @ b) * elems t ! offs (dims_of t) (b @ c)))
           \<and> (\<forall>i<prod_list (kept_s s m). \<forall>j<prod_list (kept_t t m).
                  elems r ! (i + prod_list (kept_s s m) * j)
                    = (\<Sum>b<prod_list (shared_t t m).
                         elems s ! (i + prod_list (kept_s s m) * b)
                         * elems t ! (b + prod_list (shared_t t m) * j)))"
  using assms(1-10) by (rule MultiplyTensor_spec)

theorem MultiplyTensor_contracts_witness:
  "wf_tensor \<lparr>data = Buf [1, 3, 2, 4], dim = Buf [2, 2], ndim = 2\<rparr>
   \<and> wf_tensor \<lparr>data = Buf [5, 7, 6, 8], dim = Buf [2, 2], ndim = 2\<rparr>
   \<and> prod_list (kept_s \<lparr>data = Buf [1, 3, 2, 4], dim = Buf [2, 2], ndim = 2\<rparr> 1) = 2
   \<and> prod_list (shared_t \<lparr>data = Buf [5, 7, 6, 8], dim = Buf [2, 2], ndim = 2\<rparr> 1) = 2
   \<and> prod_list (kept_t \<lparr>data = Buf [5, 7, 6, 8], dim = Buf [2, 2], ndim = 2\<rparr> 1) = 2
   \<and> MultiplyTensor \<lparr>data = Buf [1, 3, 2, 4], dim = Buf [2, 2], ndim = 2\<rparr>
        \<lparr>data = Buf [5, 7, 6, 8], dim = Buf [2, 2], ndim = 2\<rparr> 1
       = Inr \<lparr>data = Buf [19, 43, 22, 50], dim = Buf [2, 2], ndim = 2\<rparr>"
proof -
  let ?s = "\<lparr>data = Buf [1, 3, 2, 4], dim = Buf [2, 2], ndim = 2\<rparr>"
  let ?t = "\<lparr>data = Buf [5, 7, 6, 8], dim = Buf [2, 2], ndim = 2\<rparr>"
  have wfs: "wf_tensor ?s" and wft: "wf_tensor ?t" by code_simp+
  have k: "prod_list (kept_s ?s 1) = 2" "prod_list (shared_t ?t 1) = 2"
    "prod_list (kept_t ?t 1) = 2"
    by (simp_all add: kept_s_def shared_t_def kept_t_def dims_of_def)
  have match: "\<forall>i<nat 1. dims_of ?s ! (nat (ndim ?s - 1) + i) = dims_of ?t ! i"
    by (simp add: dims_of_def)
  have run: "MultiplyTensor ?s ?t 1
       = Inr \<lparr>data = Buf [19, 43, 22, 50], dim = Buf [2, 2], ndim = 2\<rparr>"
    by code_simp
  have m: "(1::int) \<le> 1" "1 \<le> ndim ?s" "1 \<le> ndim ?t" by simp_all
  have sm: "prod_list (kept_s ?s 1) < 2 ^ 31" "prod_list (shared_t ?t 1) < 2 ^ 31"
    "prod_list (kept_t ?t 1) < 2 ^ 31" unfolding k by simp_all
  have al: "int (prod_list (kept_s ?s 1) * prod_list (kept_t ?t 1)) * 16 \<le> SIZE_MAX"
    unfolding k by (simp add: SIZE_MAX_def)
  have rk: "ndim ?s + ndim ?t < 2 ^ 31" by simp
  from MultiplyTensor_contracts[OF wfs wft m match sm al rk]
  obtain r where "MultiplyTensor ?s ?t 1 = Inr r" "wf_tensor r" by (elim exE conjE)
  then show ?thesis using wfs wft k run by blast
qed

text \<open>
  C1 as the spec words it fails for operands whose extents do not fit an \<open>int\<close>: two
  vectors of \<open>2\<^sup>3\<^sup>1\<close> ones meet every condition of the claim with \<open>m = 1\<close>; their
  contraction is \<open>2\<^sup>3\<^sup>1\<close>, and the code returns 0 (the kernel is handed the count
  \<open>-2\<^sup>3\<^sup>1\<close>).
\<close>

theorem MultiplyTensor_large_extent:
  "MultiplyTensor \<lparr>data = Buf (replicate (2 ^ 31) 1), dim = Buf [2 ^ 31], ndim = 1\<rparr>
       \<lparr>data = Buf (replicate (2 ^ 31) 1), dim = Buf [2 ^ 31], ndim = 1\<rparr> 1
     = Inr \<lparr>data = Buf [0], dim = Null, ndim = 0\<rparr>
   \<and> contract_data 1 (2 ^ 31) 1 (replicate (2 ^ 31) 1) (replicate (2 ^ 31) 1) = [2 ^ 31]"
proof
  show "MultiplyTensor \<lparr>data = Buf (replicate (2 ^ 31) 1), dim = Buf [2 ^ 31], ndim = 1\<rparr>
       \<lparr>data = Buf (replicate (2 ^ 31) 1), dim = Buf [2 ^ 31], ndim = 1\<rparr> 1
     = Inr \<lparr>data = Buf [0], dim = Null, ndim = 0\<rparr>"
  proof (rule MultiplyTensor_dot_nonpositive_count)
    show "size_t_to_int (2 ^ 31) \<le> 0" unfolding size_t_to_int_2_31 by simp
  qed simp_all
  have "contract_data (Suc 0) (2 ^ 31) (Suc 0) (replicate (2 ^ 31) 1) (replicate (2 ^ 31) 1)
          = [dotu (replicate (2 ^ 31) 1) (replicate (2 ^ 31) 1)]"
    unfolding contract_data_dot dotu_def by simp
  then show "contract_data 1 (2 ^ 31) 1 (replicate (2 ^ 31) 1) (replicate (2 ^ 31) 1) = [2 ^ 31]"
    unfolding dotu_replicate by simp
qed





section \<open>Kronecker product\<close>

lemma length_interleave: "length xs = length ys \<Longrightarrow> length (interleave xs ys) = 2 * length xs"
  by (induction xs ys rule: interleave.induct) simp_all

lemma interleave_nth:
  "length xs = length ys \<Longrightarrow> k < length xs \<Longrightarrow>
     interleave xs ys ! (2 * k) = xs ! k \<and> interleave xs ys ! (2 * k + 1) = ys ! k"
proof (induction xs ys arbitrary: k rule: interleave.induct)
  case (1 x xs y ys)
  then show ?case by (cases k) simp_all
qed simp_all

lemma set_interleave: "set (interleave xs ys) \<subseteq> set xs \<union> set ys"
  by (induction xs ys rule: interleave.induct) auto

lemma prod_list_interleave:
  fixes xs :: "nat list"
  shows "length xs = length ys \<Longrightarrow> prod_list (interleave xs ys) = prod_list xs * prod_list ys"
  by (induction xs ys rule: interleave.induct) simp_all

lemma prod_list_map2_mult:
  fixes xs :: "nat list"
  shows "length xs = length ys \<Longrightarrow>
           prod_list (map2 (*) xs ys) = prod_list xs * prod_list ys"
  by (induction xs ys rule: list_induct2) simp_all

lemma valid_index_interleave:
  "valid_index ds is \<Longrightarrow> valid_index es js \<Longrightarrow> length ds = length es \<Longrightarrow>
     valid_index (interleave ds es) (interleave is js)"
proof (induction ds es arbitrary: "is" js rule: interleave.induct)
  case (1 d ds e es)
  then obtain i is' j js' where "is = i # is'" "js = j # js'"
    by (auto simp: valid_index_Cons_left)
  then show ?case using 1 by simp
qed simp_all

lemma offs_interleave:
  "length ds = length es \<Longrightarrow> length is = length ds \<Longrightarrow> length js = length ds \<Longrightarrow>
   length ks = length ds \<Longrightarrow> (\<forall>k<length ds. ks ! k = is ! k + ds ! k * js ! k) \<Longrightarrow>
     offs (map2 (*) ds es) ks = offs (interleave ds es) (interleave is js)"
proof (induction ds es arbitrary: "is" js ks rule: interleave.induct)
  case (1 d ds e es)
  then obtain i is' j js' k ks' where c: "is = i # is'" "js = j # js'" "ks = k # ks'"
    by (metis length_Suc_conv)
  have k: "k = i + d * j" using 1(6) c by auto
  have "\<forall>m<length ds. ks' ! m = is' ! m + ds ! m * js' ! m"
  proof (intro allI impI)
    fix m assume "m < length ds"
    then have "Suc m < length (d # ds)" by simp
    from 1(6)[rule_format, OF this] show "ks' ! m = is' ! m + ds ! m * js' ! m" by (simp add: c)
  qed
  then have "offs (map2 (*) ds es) ks' = offs (interleave ds es) (interleave is' js')"
    using 1 c by (intro "1.IH") simp_all
  then show ?case by (simp add: c k algebra_simps)
qed simp_all

lemma length_kron_perm [simp]: "length (kron_perm n) = 2 * n"
  by (simp add: kron_perm_def)

lemma kron_perm_nth:
  "k < n \<Longrightarrow> kron_perm n ! k = 2 * int k"
  "k < n \<Longrightarrow> kron_perm n ! (n + k) = 2 * int k + 1"
  by (simp_all add: kron_perm_def nth_append)

lemma perm_ok_kron_perm: "perm_ok (kron_perm n) (2 * n)"
proof -
  have d1: "distinct (map (\<lambda>k. 2 * int k) [0..<n])"
    by (simp add: distinct_map inj_on_def)
  have d2: "distinct (map (\<lambda>k. 2 * int k + 1) [0..<n])"
    by (simp add: distinct_map inj_on_def)
  have d3: "set (map (\<lambda>k. 2 * int k) [0..<n]) \<inter> set (map (\<lambda>k. 2 * int k + 1) [0..<n]) = {}"
  proof (rule ccontr)
    assume "\<not> ?thesis"
    then obtain a b where "2 * int a = 2 * int b + 1" by auto
    then show False by presburger
  qed
  have "distinct (kron_perm n)" unfolding kron_perm_def distinct_append using d1 d2 d3 by blast
  moreover have "list_all (\<lambda>p. 0 \<le> p \<and> p < int (2 * n)) (kron_perm n)"
    by (auto simp: kron_perm_def list_all_iff)
  ultimately show ?thesis by (simp add: perm_ok_def)
qed

lemma transpose_dims_unique:
  assumes "perm_ok perm n" and "length zs = n" and "length ds = n"
    and "\<forall>k<n. zs ! nat (perm ! k) = ds ! k"
  shows "zs = transpose_dims perm ds"
proof -
  have "\<forall>k<n. map Some zs ! nat (perm ! k) = Some (ds ! k)"
  proof (intro allI impI)
    fix k assume k: "k < n"
    have "nat (perm ! k) < n" using perm_ok_range[OF assms(1) k] by simp
    then show "map Some zs ! nat (perm ! k) = Some (ds ! k)"
      using assms(2,4) k by simp
  qed
  then have "map Some zs = map Some (gather (inv_perm perm) ds)"
    using assms by (intro scatter_result[of perm n]) simp_all
  then show ?thesis by (simp add: transpose_dims_def inj_map_eq_map)
qed

lemma gather_unique:
  assumes "length perm = length zs" and "\<forall>k<length zs. js ! nat (perm ! k) = zs ! k"
  shows "gather perm js = zs"
  by (rule nth_equalityI) (use assms in \<open>simp_all add: gather_nth\<close>)

lemma transpose_dims_kron:
  assumes "length sd = n" and "length td = n"
  shows "transpose_dims (kron_perm n) (sd @ td) = interleave sd td"
proof (rule transpose_dims_unique[symmetric, OF perm_ok_kron_perm])
  show "length (interleave sd td) = 2 * n" using assms by (simp add: length_interleave)
  show "length (sd @ td) = 2 * n" using assms by simp
  show "\<forall>k<2 * n. interleave sd td ! nat (kron_perm n ! k) = (sd @ td) ! k"
  proof (intro allI impI)
    fix k assume k: "k < 2 * n"
    show "interleave sd td ! nat (kron_perm n ! k) = (sd @ td) ! k"
    proof (cases "k < n")
      case True
      have "nat (2 * int k) = 2 * k" by simp
      then show ?thesis
        using True assms interleave_nth[of sd td k] by (simp add: kron_perm_nth nth_append)
    next
      case False
      define j where "j = k - n"
      have j: "j < n" "k = n + j" using False k by (simp_all add: j_def)
      have "nat (2 * int j + 1) = 2 * j + 1" by simp
      then show ?thesis
        using j assms interleave_nth[of sd td j] by (simp add: kron_perm_nth nth_append)
    qed
  qed
qed

lemma gather_kron:
  assumes "length is = n" and "length js = n"
  shows "gather (kron_perm n) (interleave is js) = is @ js"
proof (rule gather_unique)
  show "length (kron_perm n) = length (is @ js)" using assms by simp
  show "\<forall>k<length (is @ js). interleave is js ! nat (kron_perm n ! k) = (is @ js) ! k"
  proof (intro allI impI)
    fix k assume "k < length (is @ js)"
    then have k: "k < 2 * n" using assms by simp
    show "interleave is js ! nat (kron_perm n ! k) = (is @ js) ! k"
    proof (cases "k < n")
      case True
      have "nat (2 * int k) = 2 * k" by simp
      then show ?thesis
        using True assms interleave_nth[of "is" js k] by (simp add: kron_perm_nth nth_append)
    next
      case False
      define j where "j = k - n"
      have j: "j < n" "k = n + j" using False k by (simp_all add: j_def)
      have "nat (2 * int j + 1) = 2 * j + 1" by simp
      then show ?thesis
        using j assms interleave_nth[of "is" js j] by (simp add: kron_perm_nth nth_append)
    qed
  qed
qed

lemma length_outer_data [simp]: "length (outer_data xs ys) = length xs * length ys"
  by (simp add: outer_data_def)

lemma cblas_zgeru_Buf:
  assumes "0 < length xs" and "0 < length ys" and "length a = length xs * length ys"
    and "\<forall>p<length a. a ! p = 0"
  shows "cblas_zgeru (int (length xs)) (int (length ys)) 1 (Buf xs) (Buf ys) (Buf a) (int (length xs))
           = Inr (Buf (outer_data xs ys))"
proof -
  let ?M = "length xs" and ?N = "length ys"
  have "int ?M * (int ?N - 1) + int ?M = int (?M * ?N)" by (simp add: algebra_simps)
  then have e: "nat (int ?M * (int ?N - 1) + int ?M) = ?M * ?N" by (simp only: nat_int)
  have "map (\<lambda>p. if p mod ?M < ?M then xs ! (p mod ?M) * ys ! (p div ?M) + a ! p else a ! p)
          [0..<?M * ?N] = outer_data xs ys"
    unfolding outer_data_def using assms by (intro map_cong) simp_all
  then show ?thesis
    using assms(1,2,3) unfolding cblas_zgeru_def e by (simp add: max_def)
qed


lemma div_mod_offset: "a < (M::nat) \<Longrightarrow> (a + M * b) div M = b \<and> (a + M * b) mod M = a"
  by simp

lemma outer_data_nth:
  assumes "a < length xs" and "b < length ys"
  shows "outer_data xs ys ! (a + length xs * b) = xs ! a * ys ! b"
proof -
  have "a + length xs * b < length xs * length ys"
  proof -
    have "a + length xs * b < length xs + length xs * b" using assms(1) by simp
    also have "\<dots> = length xs * Suc b" by simp
    also have "\<dots> \<le> length xs * length ys" using assms(2) by (intro mult_le_mono2) simp
    finally show ?thesis .
  qed
  moreover have "(a + length xs * b) div length xs = b" "(a + length xs * b) mod length xs = a"
    using div_mod_offset[OF assms(1)] by blast+
  ultimately show ?thesis by (simp add: outer_data_def)
qed

lemma map2_mult_nth_upt:
  fixes sd :: "nat list"
  assumes "length sd = n" and "length td = n"
  shows "map (\<lambda>i. sd ! i * td ! i) [0..<n] = map2 (*) sd td"
proof (rule nth_equalityI)
  show "length (map (\<lambda>i. sd ! i * td ! i) [0..<n]) = length (map2 (*) sd td)"
    using assms by simp
next
  fix i assume "i < length (map (\<lambda>i. sd ! i * td ! i) [0..<n])"
  then have "i < n" by simp
  then show "map (\<lambda>i. sd ! i * td ! i) [0..<n] ! i = map2 (*) sd td ! i"
    using assms by simp
qed

lemma TensorKroneckerProduct_dispatch:
  assumes wfs: "wf_tensor s" and wft: "wf_tensor t" and eq: "ndim s = ndim t" and r1: "1 \<le> ndim s"
    and sd_def: "sd = dims_of s" and td_def: "td = dims_of t" and nE: "n = nat (ndim s)"
    and M_def: "M = prod_list sd" and N_def: "N = prod_list td"
  shows "TensorKroneckerProduct s t =
     bnd (AllocateTensor (ndim s + ndim t) (Buf (sd @ td))) (\<lambda>u.
     bnd (NumTensorElements u) (\<lambda>nelemU.
       if nelemU \<noteq> M * N then Inl AssertionFailed
       else
         bnd (cblas_zgeru (size_t_to_int M) (size_t_to_int N) 1 (data s) (data t) (data u)
                (size_t_to_int M)) (\<lambda>udata.
         bnd (TransposeTensor (kron_perm n) (u\<lparr>data := udata\<rparr>)) (\<lambda>r.
         bnd (DeleteTensor (u\<lparr>data := udata\<rparr>)) (\<lambda>deleted.
         bnd (for_each [0..<nat (ndim s)]
                (\<lambda>i rdim.
                   bnd (rd (dim s) i) (\<lambda>a.
                   bnd (rd (dim t) i) (\<lambda>b.
                   bnd (wrl rdim i (Some (a * b))) (\<lambda>rdim1.
                   bnd (rd (dim r) (2 * i)) (\<lambda>c.
                   bnd (rd (dim r) (2 * i + 1)) (\<lambda>d.
                     if a * b \<noteq> c * d then Inl AssertionFailed else Inr rdim1))))))
                (replicate (nat (ndim s)) None)) (\<lambda>rdim1.
         bnd (initialised rdim1) (\<lambda>rdim.
           ReshapeTensor (ndim s) (Buf rdim) r)))))))"
proof -
  have n_def: "n = length sd" using wfs nE by (auto elim: wf_tensorE simp: sd_def)
  from wfs have nds: "ndim s = int n" and poss: "\<forall>d\<in>set sd. 0 < d"
    by (auto elim: wf_tensorE simp: sd_def n_def)
  from wft have ndt': "ndim t = int (length td)" and post: "\<forall>d\<in>set td. 0 < d"
    by (auto elim: wf_tensorE simp: td_def)
  have ltd: "length td = n" using eq nds ndt' by simp
  have lsd: "length sd = n" by (simp add: n_def)
  have ndt: "ndim t = int n" using ndt' ltd by simp
  have n1: "1 \<le> n" using r1 nds by simp
  have dms: "dim s = Buf sd" using wf_dim_Buf[OF wfs r1] by (simp add: sd_def)
  have dmt: "dim t = Buf td" using wf_dim_Buf[OF wft] r1 eq by (simp add: td_def)
  have e1: "nat (ndim s) = n" "nat (ndim t) = n" "nat (ndim s + ndim t) = n + n"
    using nds ndt by simp_all
  \<comment> \<open>dimensions of the temporary tensor\<close>
  have A1: "for_each [0..<nat (ndim s)]
               (\<lambda>i udim. bnd (rd (dim s) i) (\<lambda>d. wrl udim i (Some d)))
               (replicate (nat (ndim s + ndim t)) None)
             = Inr (map Some sd @ replicate n None)"
  proof -
    have "for_each [0..<n]
               (\<lambda>i udim. bnd (rd (dim s) i) (\<lambda>d. wrl udim i (Some d)))
               (replicate (n + n) None)
          = for_each [0..<n] (\<lambda>i arr. wrl arr (0 + (i - 0)) (Some (sd ! i)))
               ([] @ replicate (n - 0) None @ replicate n None)"
      unfolding replicate_add
    proof (rule for_each_cong[THEN trans])
      fix i and arr :: "nat option list" assume "i \<in> set [0..<n]"
      then have "i < length sd" by (simp add: n_def)
      then show "bnd (rd (dim s) i) (\<lambda>d. wrl arr i (Some d)) = wrl arr (0 + (i - 0)) (Some (sd ! i))"
        by (simp add: dms)
    qed simp
    also have "\<dots> = Inr ([] @ map (\<lambda>i. Some (sd ! i)) [0..<n] @ replicate n None)"
      by (rule fill_loop) simp
    also have "map (\<lambda>i. Some (sd ! i)) [0..<n] = map Some sd"
      by (rule nth_equalityI) (simp_all add: lsd)
    finally show ?thesis by (simp add: e1)
  qed
  have A2: "for_each [0..<nat (ndim t)]
               (\<lambda>i udim. bnd (rd (dim t) i) (\<lambda>d. wri udim (ndim s + int i) (Some d)))
               (map Some sd @ replicate n None)
             = Inr (map Some (sd @ td))"
  proof -
    have "for_each [0..<n]
               (\<lambda>i udim. bnd (rd (dim t) i) (\<lambda>d. wri udim (ndim s + int i) (Some d)))
               (map Some sd @ replicate n None)
          = for_each [0..<n] (\<lambda>i arr. wrl arr (n + (i - 0)) (Some (td ! i)))
               (map Some sd @ replicate (n - 0) None @ [])"
    proof (rule for_each_cong[THEN trans])
      fix i and arr :: "nat option list" assume "i \<in> set [0..<n]"
      then have i: "i < n" by simp
      have "ndim s + int i = int (n + (i - 0))" using nds by simp
      then have "wri arr (ndim s + int i) (Some (td ! i)) = wrl arr (n + (i - 0)) (Some (td ! i))"
        by (simp only: wri_def nat_int) simp
      then show "bnd (rd (dim t) i) (\<lambda>d. wri arr (ndim s + int i) (Some d))
                   = wrl arr (n + (i - 0)) (Some (td ! i))"
        using i by (simp add: dmt ltd)
    qed simp
    also have "\<dots> = Inr (map Some sd @ map (\<lambda>i. Some (td ! i)) [0..<n] @ [])"
      by (rule fill_loop) (simp add: lsd)
    also have "map (\<lambda>i. Some (td ! i)) [0..<n] = map Some td"
      by (rule nth_equalityI) (simp_all add: ltd)
    finally show ?thesis by (simp add: e1)
  qed
  have A3: "initialised (map Some (sd @ td)) = Inr (sd @ td)" by (rule initialised_map_Some)
  have C: "NumTensorElements s = Inr M" "NumTensorElements t = Inr N"
    using NumTensorElements_wf[OF wfs] NumTensorElements_wf[OF wft]
    by (simp_all add: M_def N_def sd_def td_def)
  \<comment> \<open>the interleaving permutation\<close>
  have P1: "for_each [0..<nat (ndim s)]
               (\<lambda>i perm. wrl perm i (Some (2 * int i)))
               (replicate (nat (ndim s + ndim t)) None)
             = Inr (map Some (map (\<lambda>k. 2 * int k) [0..<n]) @ replicate n None)"
  proof -
    have "for_each [0..<n]
               (\<lambda>i perm. wrl perm i (Some (2 * int i)))
               (replicate (n + n) None)
          = for_each [0..<n] (\<lambda>i arr. wrl arr (0 + (i - 0)) (Some (2 * int i)))
               ([] @ replicate (n - 0) None @ replicate n None)"
      unfolding replicate_add by simp
    also have "\<dots> = Inr ([] @ map (\<lambda>i. Some (2 * int i)) [0..<n] @ replicate n None)"
      by (rule fill_loop) simp
    finally show ?thesis by (simp add: e1 comp_def)
  qed
  have P2: "for_each [0..<nat (ndim t)]
               (\<lambda>i perm. wri perm (ndim s + int i) (Some (2 * int i + 1)))
               (map Some (map (\<lambda>k. 2 * int k) [0..<n]) @ replicate n None)
             = Inr (map Some (kron_perm n))"
  proof -
    have "for_each [0..<n]
               (\<lambda>i perm. wri perm (ndim s + int i) (Some (2 * int i + 1)))
               (map Some (map (\<lambda>k. 2 * int k) [0..<n]) @ replicate n None)
          = for_each [0..<n] (\<lambda>i arr. wrl arr (n + (i - 0)) (Some (2 * int i + 1)))
               (map Some (map (\<lambda>k. 2 * int k) [0..<n]) @ replicate (n - 0) None @ [])"
    proof (rule for_each_cong[THEN trans])
      fix i and arr :: "int option list" assume "i \<in> set [0..<n]"
      have "ndim s + int i = int (n + (i - 0))" using nds by simp
      then show "wri arr (ndim s + int i) (Some (2 * int i + 1))
                   = wrl arr (n + (i - 0)) (Some (2 * int i + 1))"
        by (simp only: wri_def nat_int) simp
    qed simp
    also have "\<dots> = Inr (map Some (map (\<lambda>k. 2 * int k) [0..<n])
                          @ map (\<lambda>i. Some (2 * int i + 1)) [0..<n] @ [])"
      by (rule fill_loop) simp
    finally show ?thesis by (simp add: e1 kron_perm_def comp_def)
  qed
  have P3: "initialised (map Some (kron_perm n)) = Inr (kron_perm n)"
    by (rule initialised_map_Some)
  have c: "(ndim s \<noteq> ndim t) = False" using eq by simp
  note S = c if_False A1 A2 A3 C P1 P2 P3 sum.case
  show ?thesis
  proof (cases "AllocateTensor (ndim s + ndim t) (Buf (sd @ td))")
    case (Inl e)
    show ?thesis unfolding TensorKroneckerProduct_def by (simp only: S Inl)
  next
    case u: (Inr u)
    show ?thesis
    proof (cases "NumTensorElements u")
      case (Inl e)
      show ?thesis unfolding TensorKroneckerProduct_def by (simp only: S u Inl)
    next
      case ne: (Inr nelemU)
      show ?thesis
      proof (cases "nelemU \<noteq> M * N")
        case True
        then have f: "(nelemU \<noteq> M * N) = True" by simp
        show ?thesis unfolding TensorKroneckerProduct_def by (simp only: S u ne f if_True)
      next
        case False
        then have f: "(nelemU \<noteq> M * N) = False" by simp
        show ?thesis
        proof (cases "cblas_zgeru (size_t_to_int M) (size_t_to_int N) 1 (data s) (data t) (data u)
                        (size_t_to_int M)")
          case (Inl e)
          show ?thesis unfolding TensorKroneckerProduct_def by (simp only: S u ne f Inl)
        next
          case (Inr udata)
          show ?thesis unfolding TensorKroneckerProduct_def by (simp only: S u ne f Inr)
        qed
      qed
    qed
  qed
qed

lemma cblas_zgeru_Inr:
  assumes "cblas_zgeru M N alpha X Y (Buf a) lda = Inr ud"
  shows "\<exists>zs. ud = Buf zs \<and> length zs = length a"
  using assms
  by (auto simp: cblas_zgeru_def rd_block_def wr_block_def
      split: if_splits sum.splits buf.splits)

lemma buf_list_Buf [simp]: "buf_list (Buf xs) = xs"
  by (simp add: buf_list_def)

lemma TensorKroneckerProduct_kernel:
  assumes wfs: "wf_tensor s" and wft: "wf_tensor t" and eq: "ndim s = ndim t" and r1: "1 \<le> ndim s"
    and sd_def: "sd = dims_of s" and td_def: "td = dims_of t" and nE: "n = nat (ndim s)"
    and M_def: "M = prod_list sd" and N_def: "N = prod_list td"
    and alloc: "int (M * N) * 16 \<le> SIZE_MAX"
  shows "TensorKroneckerProduct s t =
     bnd (cblas_zgeru (size_t_to_int M) (size_t_to_int N) 1 (data s) (data t)
            (Buf (replicate (M * N) 0)) (size_t_to_int M)) (\<lambda>udata.
       Inr \<lparr>data = Buf (transpose_data (kron_perm n) (sd @ td) (buf_list udata)),
            dim = Buf (map2 (*) sd td), ndim = ndim s\<rparr>)"
proof -
  define pd where "pd = map2 (*) sd td"
  have n_def: "n = length sd" using wfs nE by (auto elim: wf_tensorE simp: sd_def)
  from wfs have nds: "ndim s = int n" and poss: "\<forall>d\<in>set sd. 0 < d"
    by (auto elim: wf_tensorE simp: sd_def n_def)
  from wft have ndt': "ndim t = int (length td)" and post: "\<forall>d\<in>set td. 0 < d"
    by (auto elim: wf_tensorE simp: td_def)
  have ltd: "length td = n" using eq nds ndt' by simp
  have lsd: "length sd = n" by (simp add: n_def)
  have ndt: "ndim t = int n" using ndt' ltd by simp
  have n1: "1 \<le> n" using r1 nds by simp
  have dms: "dim s = Buf sd" using wf_dim_Buf[OF wfs r1] by (simp add: sd_def)
  have dmt: "dim t = Buf td" using wf_dim_Buf[OF wft] r1 eq by (simp add: td_def)
  have e1: "nat (ndim s) = n" "nat (ndim t) = n" "nat (ndim s + ndim t) = n + n"
    using nds ndt by simp_all
  \<comment> \<open>the temporary tensor\<close>
  define u0 where "u0 = \<lparr>data = Buf (replicate (M * N) (0::complex)), dim = Buf (sd @ td),
                          ndim = ndim s + ndim t\<rparr>"
  have lu: "ndim s + ndim t = int (length (sd @ td))" using nds ndt lsd ltd by simp
  have posu: "\<forall>d\<in>set (sd @ td). 0 < d" using poss post by auto
  have fits: "int (prod_list (sd @ td)) * 16 \<le> SIZE_MAX"
    using alloc by (simp add: M_def N_def)
  have B: "AllocateTensor (ndim s + ndim t) (Buf (sd @ td)) = Inr u0"
    using AllocateTensor_Buf[of "sd @ td"] posu n1 lsd lu fits by (simp add: u0_def M_def N_def)
  have wfu0: "wf_tensor u0"
    unfolding u0_def lu
    by (rule wf_tensor_mk) (use posu n1 lsd fits in \<open>simp_all add: M_def N_def\<close>)
  have du0: "dims_of u0 = sd @ td" by (simp add: dims_of_def u0_def)
  have C3: "NumTensorElements u0 = Inr (M * N)"
    using NumTensorElements_wf[OF wfu0] by (simp add: du0 M_def N_def)
  have du: "data u0 = Buf (replicate (M * N) 0)" by (simp add: u0_def)
  have step: "TensorKroneckerProduct s t =
     bnd (cblas_zgeru (size_t_to_int M) (size_t_to_int N) 1 (data s) (data t)
            (Buf (replicate (M * N) 0)) (size_t_to_int M)) (\<lambda>udata.
         bnd (TransposeTensor (kron_perm n) (u0\<lparr>data := udata\<rparr>)) (\<lambda>r.
         bnd (DeleteTensor (u0\<lparr>data := udata\<rparr>)) (\<lambda>deleted.
         bnd (for_each [0..<nat (ndim s)]
                (\<lambda>i rdim.
                   bnd (rd (dim s) i) (\<lambda>a.
                   bnd (rd (dim t) i) (\<lambda>b.
                   bnd (wrl rdim i (Some (a * b))) (\<lambda>rdim1.
                   bnd (rd (dim r) (2 * i)) (\<lambda>c.
                   bnd (rd (dim r) (2 * i + 1)) (\<lambda>d.
                     if a * b \<noteq> c * d then Inl AssertionFailed else Inr rdim1))))))
                (replicate (nat (ndim s)) None)) (\<lambda>rdim1.
         bnd (initialised rdim1) (\<lambda>rdim.
           ReshapeTensor (ndim s) (Buf rdim) r)))))"
    using TensorKroneckerProduct_dispatch[OF wfs wft eq r1 sd_def td_def nE M_def N_def]
    by (simp only: B C3 sum.case simp_thms if_False du)
  show ?thesis
  proof (cases "cblas_zgeru (size_t_to_int M) (size_t_to_int N) 1 (data s) (data t)
                  (Buf (replicate (M * N) 0)) (size_t_to_int M)")
    case (Inl e)
    show ?thesis unfolding step by (simp only: Inl sum.case)
  next
    case (Inr udata)
    from cblas_zgeru_Inr[OF Inr] obtain zs where zs: "udata = Buf zs" "length zs = M * N"
      by auto
    define u1 where "u1 = u0\<lparr>data := Buf zs\<rparr>"
    \<comment> \<open>the transposition\<close>
    define r where "r = \<lparr>data = Buf (transpose_data (kron_perm n) (sd @ td) (zs)),
                          dim = Buf (interleave sd td), ndim = ndim s + ndim t\<rparr>"
    have wfu1: "wf_tensor u1"
      unfolding u1_def u0_def lu
      using wf_tensor_mk[of "sd @ td" "zs"] posu n1 lsd zs(2) fits
      by (simp add: M_def N_def)
    have du1: "dims_of u1 = sd @ td" "elems u1 = zs" "ndim u1 = int (2 * n)"
      using nds ndt by (simp_all add: dims_of_def elems_def u1_def u0_def)
    have T: "TransposeTensor (kron_perm n) u1 = Inr r"
    proof -
      have "1 \<le> ndim u1" using du1(3) n1 by simp
      moreover have "perm_ok (kron_perm n) (nat (ndim u1))"
        unfolding du1(3) nat_int by (rule perm_ok_kron_perm)
      ultimately show ?thesis
        using TransposeTensor_eq[OF wfu1] du1 nds ndt
        by (simp add: r_def transpose_dims_kron[OF lsd ltd])
    qed
    have Del: "\<exists>d. DeleteTensor u1 = Inr d"
      using n1 nds ndt by (simp add: DeleteTensor_def u1_def u0_def algn_free_def)
    \<comment> \<open>the final dimensions\<close>
    have R1: "for_each [0..<nat (ndim s)]
                     (\<lambda>i rdim.
                        bnd (rd (dim s) i) (\<lambda>a.
                        bnd (rd (dim t) i) (\<lambda>b.
                        bnd (wrl rdim i (Some (a * b))) (\<lambda>rdim1.
                        bnd (rd (dim r) (2 * i)) (\<lambda>c.
                        bnd (rd (dim r) (2 * i + 1)) (\<lambda>d.
                          if a * b \<noteq> c * d then Inl AssertionFailed else Inr rdim1))))))
                     (replicate (nat (ndim s)) None)
               = Inr (map Some pd)"
    proof -
      have "for_each [0..<n]
                     (\<lambda>i rdim.
                        bnd (rd (dim s) i) (\<lambda>a.
                        bnd (rd (dim t) i) (\<lambda>b.
                        bnd (wrl rdim i (Some (a * b))) (\<lambda>rdim1.
                        bnd (rd (dim r) (2 * i)) (\<lambda>c.
                        bnd (rd (dim r) (2 * i + 1)) (\<lambda>d.
                          if a * b \<noteq> c * d then Inl AssertionFailed else Inr rdim1))))))
                     (replicate n None)
            = for_each [0..<n] (\<lambda>i arr. wrl arr (0 + (i - 0)) (Some (sd ! i * td ! i)))
                 ([] @ replicate (n - 0) None @ [])"
      proof (rule for_each_cong[THEN trans])
        fix i and arr :: "nat option list" assume "i \<in> set [0..<n]"
        then have i: "i < n" by simp
        have li: "2 * i < length (interleave sd td)" "2 * i + 1 < length (interleave sd td)"
          using i lsd ltd by (simp_all add: length_interleave)
        have il: "interleave sd td ! (2 * i) = sd ! i" "interleave sd td ! (2 * i + 1) = td ! i"
          using interleave_nth[of sd td i] i lsd ltd by simp_all
        have rds: "rd (dim r) (2 * i) = Inr (sd ! i)" "rd (dim r) (2 * i + 1) = Inr (td ! i)"
          using li il by (simp_all add: r_def)
        have rs: "rd (dim s) i = Inr (sd ! i)" "rd (dim t) i = Inr (td ! i)"
          using i lsd ltd by (simp_all add: dms dmt)
        show "bnd (rd (dim s) i) (\<lambda>a.
                        bnd (rd (dim t) i) (\<lambda>b.
                        bnd (wrl arr i (Some (a * b))) (\<lambda>rdim1.
                        bnd (rd (dim r) (2 * i)) (\<lambda>c.
                        bnd (rd (dim r) (2 * i + 1)) (\<lambda>d.
                          if a * b \<noteq> c * d then Inl AssertionFailed else Inr rdim1)))))
               = wrl arr (0 + (i - 0)) (Some (sd ! i * td ! i))"
          unfolding rs rds by (simp add: wrl_def)
      qed simp
      also have "\<dots> = Inr ([] @ map (\<lambda>i. Some (sd ! i * td ! i)) [0..<n] @ [])"
        by (rule fill_loop) simp
      also have "map (\<lambda>i. Some (sd ! i * td ! i)) [0..<n] = map Some pd"
        by (rule nth_equalityI) (simp_all add: pd_def lsd ltd)
      finally show ?thesis by (simp add: e1)
    qed
    have R2: "initialised (map Some pd) = Inr pd" by (rule initialised_map_Some)
    have lpd: "length pd = n" using lsd ltd by (simp add: pd_def)
    have Re: "ReshapeTensor (ndim s) (Buf pd) r
                = Inr \<lparr>data = Buf (transpose_data (kron_perm n) (sd @ td) (zs)),
                       dim = Buf pd, ndim = ndim s\<rparr>"
    proof -
      have ip: "IntProduct (Buf pd) (ndim s) = Inr (M * N)"
        using IntProduct_Buf[of "ndim s" pd] lpd nds prod_list_map2_mult[of sd td] lsd ltd
        by (simp add: pd_def M_def N_def)
      have posi: "\<forall>d\<in>set (interleave sd td). 0 < d"
        using set_interleave[of sd td] posu by auto
      have "length (interleave sd td) = 2 * n" using lsd ltd by (simp add: length_interleave)
      then have li: "nat (ndim s + ndim t) \<le> length (interleave sd td)" using e1 by simp
      have "prod_list (take (nat (ndim s + ndim t)) (interleave sd td)) = M * N"
        using \<open>length (interleave sd td) = 2 * n\<close> e1 prod_list_interleave[of sd td] lsd ltd
        by (simp add: M_def N_def)
      then have nr: "NumTensorElements r = Inr (M * N)"
        using IntProduct_Buf[OF li] n1 nds ndt by (simp add: NumTensorElements_def r_def)
      have rb: "rd_block (Buf pd) (nat (ndim s)) = Inr pd" unfolding e1 using lpd by simp
      show ?thesis
        unfolding ReshapeTensor_def ip nr rb
        by (simp add: r_def algn_free_def)
    qed
    obtain dl where Del': "DeleteTensor (u0\<lparr>data := Buf zs\<rparr>) = Inr dl"
      using Del unfolding u1_def by blast
    have "TensorKroneckerProduct s t
            = Inr \<lparr>data = Buf (transpose_data (kron_perm n) (sd @ td) zs),
                   dim = Buf pd, ndim = ndim s\<rparr>"
      unfolding step
      by (simp only: Inr sum.case zs(1) T[unfolded u1_def] Del' R1 R2 Re)
    then show ?thesis
      by (simp only: Inr sum.case zs(1) buf_list_Buf pd_def)
  qed
qed

lemma TensorKroneckerProduct_eq:
  assumes wfs: "wf_tensor s" and wft: "wf_tensor t" and eq: "ndim s = ndim t" and r1: "1 \<le> ndim s"
    and small: "prod_list (dims_of s) < 2 ^ 31" "prod_list (dims_of t) < 2 ^ 31"
    and alloc: "int (prod_list (dims_of s) * prod_list (dims_of t)) * 16 \<le> SIZE_MAX"
  shows "TensorKroneckerProduct s t
           = Inr \<lparr>data = Buf (transpose_data (kron_perm (nat (ndim s))) (dims_of s @ dims_of t)
                               (outer_data (elems s) (elems t))),
                  dim = Buf (map2 (*) (dims_of s) (dims_of t)),
                  ndim = ndim s\<rparr>"
proof -
  define M where "M = prod_list (dims_of s)"
  define N where "N = prod_list (dims_of t)"
  from wfs obtain xs where xs: "data s = Buf xs" "elems s = xs" "length xs = M"
    and poss: "\<forall>d\<in>set (dims_of s). 0 < d"
    by (auto elim: wf_tensorE simp: M_def)
  from wft obtain ys where ys: "data t = Buf ys" "elems t = ys" "length ys = N"
    and post: "\<forall>d\<in>set (dims_of t). 0 < d"
    by (auto elim: wf_tensorE simp: N_def)
  have gt0: "0 < M" "0 < N" using poss post prod_list_pos by (simp_all add: M_def N_def)
  have cast: "size_t_to_int M = int M" "size_t_to_int N = int N"
    using small by (simp_all add: size_t_to_int_small M_def N_def)
  have D: "cblas_zgeru (size_t_to_int M) (size_t_to_int N) 1 (data s) (data t)
             (Buf (replicate (M * N) 0)) (size_t_to_int M) = Inr (Buf (outer_data xs ys))"
    unfolding cast xs(1) ys(1)
    using cblas_zgeru_Buf[of xs ys "replicate (M * N) 0"] gt0 xs(3) ys(3)
    by simp
  have "int (M * N) * 16 \<le> SIZE_MAX" using alloc by (simp add: M_def N_def)
  from TensorKroneckerProduct_kernel[OF wfs wft eq r1 refl refl refl M_def N_def this]
  show ?thesis by (simp only: D sum.case buf_list_Buf xs(2) ys(2))
qed

lemma kron_index_less:
  assumes "i < (d::nat)" and "j < e"
  shows "i + d * j < d * e"
proof -
  have "i + d * j < d + d * j" using assms(1) by simp
  also have "\<dots> = d * Suc j" by simp
  also have "\<dots> \<le> d * e" using assms(2) by (intro mult_le_mono2) simp
  finally show ?thesis .
qed

lemma TensorKroneckerProduct_nonpositive_count:
  assumes "0 < N" and "size_t_to_int N < 0" and "length xs = N"
    and "int N * 16 \<le> SIZE_MAX"
  shows "TensorKroneckerProduct \<lparr>data = Buf xs, dim = Buf [N], ndim = 1\<rparr>
           \<lparr>data = Buf [y], dim = Buf [1], ndim = 1\<rparr>
         = Inl KernelIllegalArg"
proof -
  have n: "NumTensorElements \<lparr>data = Buf xs, dim = Buf [N], ndim = 1\<rparr> = Inr N"
    "NumTensorElements \<lparr>data = Buf [y], dim = Buf [Suc 0], ndim = 1\<rparr> = Inr (Suc 0)"
    by (simp_all add: NumTensorElements_def IntProduct_def)
  have a: "AllocateTensor 2 (Buf [N, Suc 0])
             = Inr \<lparr>data = Buf (replicate N 0), dim = Buf [N, Suc 0], ndim = 2\<rparr>"
    using AllocateTensor_Buf[of "[N, Suc 0]"] assms(1,4) by simp
  have nu: "NumTensorElements \<lparr>data = Buf (replicate N 0), dim = Buf [N, Suc 0], ndim = 2\<rparr>
              = Inr N"
  proof -
    have "wf_tensor \<lparr>data = Buf (replicate N (0::complex)), dim = Buf [N, Suc 0],
                      ndim = int (length [N, Suc 0])\<rparr>"
      using assms(1,4) by (intro wf_tensor_mk) simp_all
    from NumTensorElements_wf[OF this] show ?thesis by (simp add: dims_of_def)
  qed
  have k: "cblas_zgeru (size_t_to_int N) (size_t_to_int (Suc 0)) 1 (Buf xs) (Buf [y])
             (Buf (replicate N 0)) (size_t_to_int N) = Inl KernelIllegalArg"
    using assms(2) by (simp add: cblas_zgeru_def)
  show ?thesis
    by (simp add: TensorKroneckerProduct_def n a nu k wri_def wrl_def initialised_def
          numeral_2_eq_2)
qed

text \<open>
  C3, as the code has it. For well-formed tensors \<open>S\<close> and \<open>T\<close> of equal rank \<open>n \<ge> 1\<close>
  whose element counts \<open>M\<close> and \<open>N\<close> are below \<open>2\<^sup>3\<^sup>1\<close> (they are cast to \<open>int\<close> for the
  outer-product kernel), with a product that can be allocated (\<open>16 M N\<close> bytes, at most
  \<open>SIZE_MAX\<close>) and with \<open>2n < 2\<^sup>3\<^sup>1\<close> (ranks are \<open>int\<close>s),
  \<open>TensorKroneckerProduct\<close> returns a well-formed tensor \<open>R\<close> of rank \<open>n\<close>: the
  data of the rank-\<open>2n\<close> outer product transposed by \<open>perm[k] = 2k\<close>,
  \<open>perm[n + k] = 2k + 1\<close>, with \<open>R.dim[k] = S.dim[k] \<cdot> T.dim[k]\<close> and
  \<open>R[i\<^sub>0 + S.dim[0] j\<^sub>0, \<dots>] = S[i\<^sub>0, \<dots>] T[j\<^sub>0, \<dots>]\<close> for all multi-indices \<open>i\<close> of \<open>S\<close> and
  \<open>j\<close> of \<open>T\<close>. For \<open>S\<close> the 2 by 2 identity and \<open>T = [[0, 1], [1, 0]]\<close> the result is
  the 4 by 4 matrix with ones at \<open>(2, 0)\<close>, \<open>(3, 1)\<close>, \<open>(0, 2)\<close>, \<open>(1, 3)\<close>.
\<close>

theorem TensorKroneckerProduct_interleaves:
  assumes "wf_tensor s" and "wf_tensor t" and "ndim s = ndim t" and "1 \<le> ndim s"
    and "prod_list (dims_of s) < 2 ^ 31" and "prod_list (dims_of t) < 2 ^ 31"
    and "int (prod_list (dims_of s) * prod_list (dims_of t)) * 16 \<le> SIZE_MAX"
    and "ndim s + ndim t < 2 ^ 31"
  shows "\<exists>r. TensorKroneckerProduct s t = Inr r \<and> wf_tensor r \<and> ndim r = ndim s
           \<and> elems r = transpose_data (kron_perm (nat (ndim s))) (dims_of s @ dims_of t)
                          (outer_data (elems s) (elems t))
           \<and> (\<forall>k<nat (ndim s). kron_perm (nat (ndim s)) ! k = 2 * int k
                  \<and> kron_perm (nat (ndim s)) ! (nat (ndim s) + k) = 2 * int k + 1
                  \<and> dims_of r ! k = dims_of s ! k * dims_of t ! k)
           \<and> (\<forall>is js ks. valid_index (dims_of s) is \<and> valid_index (dims_of t) js
                  \<and> length ks = nat (ndim s)
                  \<and> (\<forall>k<nat (ndim s). ks ! k = is ! k + dims_of s ! k * js ! k) \<longrightarrow>
                  valid_index (dims_of r) ks
                  \<and> elems r ! offs (dims_of r) ks
                      = elems s ! offs (dims_of s) is * elems t ! offs (dims_of t) js)"
proof -
  define sd where "sd = dims_of s"
  define td where "td = dims_of t"
  define n where "n = nat (ndim s)"
  define xs where "xs = elems s"
  define ys where "ys = elems t"
  define pd where "pd = map2 (*) sd td"
  define r where "r = \<lparr>data = Buf (transpose_data (kron_perm n) (sd @ td) (outer_data xs ys)),
                        dim = Buf pd, ndim = ndim s\<rparr>"
  have run: "TensorKroneckerProduct s t = Inr r"
    using TensorKroneckerProduct_eq[OF assms(1-7)]
    by (simp add: r_def sd_def td_def n_def xs_def ys_def pd_def)
  have lsd: "length sd = n" and ltd: "length td = n"
    using assms(1,2,3) by (auto elim!: wf_tensorE simp: sd_def td_def n_def)
  have poss: "\<forall>d\<in>set sd. 0 < d" and post: "\<forall>d\<in>set td. 0 < d"
    using assms(1,2) by (auto elim!: wf_tensorE simp: sd_def td_def)
  have lx: "length xs = prod_list sd" and ly: "length ys = prod_list td"
    using assms(1,2) by (auto elim!: wf_tensorE simp: sd_def td_def xs_def ys_def)
  have n1: "1 \<le> n" and nds: "ndim s = int n" using assms(4) by (simp_all add: n_def)
  have lpd: "length pd = n" using lsd ltd by (simp add: pd_def)
  have pdk: "pd ! k = sd ! k * td ! k" if "k < n" for k
    using that lsd ltd by (simp add: pd_def)
  have dr: "dims_of r = pd" "elems r = transpose_data (kron_perm n) (sd @ td) (outer_data xs ys)"
    "ndim r = ndim s"
    by (simp_all add: r_def dims_of_def elems_def)
  have pospd: "\<forall>d\<in>set pd. 0 < d"
  proof
    fix d assume "d \<in> set pd"
    then obtain k where k: "k < n" "d = pd ! k" using lpd by (auto simp: in_set_conv_nth)
    have "0 < sd ! k" "0 < td ! k" using poss post k(1) lsd ltd by simp_all
    then show "0 < d" using k pdk by simp
  qed
  have wfr: "wf_tensor r"
  proof -
    have "length (transpose_data (kron_perm n) (sd @ td) (outer_data xs ys)) = prod_list pd"
      using prod_list_map2_mult[of sd td] lsd ltd by (simp add: pd_def)
    moreover have "int (prod_list pd) * 16 \<le> SIZE_MAX"
      using assms(7) prod_list_map2_mult[of sd td] lsd ltd by (simp add: pd_def sd_def td_def)
    ultimately
    have "wf_tensor \<lparr>data = Buf (transpose_data (kron_perm n) (sd @ td) (outer_data xs ys)),
                      dim = Buf pd, ndim = int (length pd)\<rparr>"
      using pospd n1 lpd by (intro wf_tensor_mk) simp_all
    then show ?thesis by (simp add: r_def nds lpd)
  qed
  have elem: "valid_index pd ks
              \<and> transpose_data (kron_perm n) (sd @ td) (outer_data xs ys) ! offs pd ks
                  = xs ! offs sd is * ys ! offs td js"
    if vi: "valid_index sd is" and vj: "valid_index td js" and lk: "length ks = n"
      and ks: "\<forall>k<n. ks ! k = is ! k + sd ! k * js ! k" for "is" js ks
  proof
    have li: "length is = n" and lj: "length js = n"
      using vi vj lsd ltd by (simp_all add: valid_index_iff)
    show "valid_index pd ks"
      unfolding valid_index_iff
    proof (intro conjI allI impI)
      show "length ks = length pd" using lk lpd by simp
    next
      fix k assume "k < length pd"
      then have k: "k < n" using lpd by simp
      have "is ! k < sd ! k" "js ! k < td ! k"
        using vi vj k lsd ltd by (simp_all add: valid_index_iff)
      then have "is ! k + sd ! k * js ! k < sd ! k * td ! k" by (rule kron_index_less)
      then show "ks ! k < pd ! k" using ks k pdk by simp
    qed
    let ?L = "interleave is js"
    have q: "offs pd ks = offs (interleave sd td) ?L"
      unfolding pd_def using lsd ltd li lj lk ks by (intro offs_interleave) simp_all
    have vL: "valid_index (interleave sd td) ?L"
      using vi vj lsd ltd by (intro valid_index_interleave) simp_all
    have "offs (interleave sd td) ?L < prod_list (interleave sd td)" by (rule offs_less[OF vL])
    then have lt: "offs (interleave sd td) ?L < prod_list (sd @ td)"
      using prod_list_interleave[of sd td] lsd ltd by simp
    have "transpose_data (kron_perm n) (sd @ td) (outer_data xs ys) ! offs (interleave sd td) ?L
            = outer_data xs ys ! offs (sd @ td) (gather (kron_perm n)
                (idx_of (interleave sd td) (offs (interleave sd td) ?L)))"
      unfolding transpose_data_nth[OF lt] transpose_dims_kron[OF lsd ltd] ..
    also have "\<dots> = outer_data xs ys ! offs (sd @ td) (is @ js)"
      unfolding idx_of_offs[OF vL] gather_kron[OF li lj] ..
    also have "offs (sd @ td) (is @ js) = offs sd is + length xs * offs td js"
      using offs_append[of sd "is" td js] lsd li lx by simp
    also have "outer_data xs ys ! (offs sd is + length xs * offs td js)
                 = xs ! offs sd is * ys ! offs td js"
      using offs_less[OF vi] offs_less[OF vj] lx ly by (intro outer_data_nth) simp_all
    finally show "transpose_data (kron_perm n) (sd @ td) (outer_data xs ys) ! offs pd ks
                    = xs ! offs sd is * ys ! offs td js"
      unfolding q .
  qed
  have "TensorKroneckerProduct s t = Inr r \<and> wf_tensor r \<and> ndim r = ndim s
           \<and> elems r = transpose_data (kron_perm n) (sd @ td) (outer_data xs ys)
           \<and> (\<forall>k<n. kron_perm n ! k = 2 * int k \<and> kron_perm n ! (n + k) = 2 * int k + 1
                  \<and> dims_of r ! k = sd ! k * td ! k)
           \<and> (\<forall>is js ks. valid_index sd is \<and> valid_index td js \<and> length ks = n
                  \<and> (\<forall>k<n. ks ! k = is ! k + sd ! k * js ! k) \<longrightarrow>
                  valid_index (dims_of r) ks
                  \<and> elems r ! offs (dims_of r) ks = xs ! offs sd is * ys ! offs td js)"
    unfolding dr
  proof (intro conjI allI impI)
    show "TensorKroneckerProduct s t = Inr r" by (rule run)
    show "wf_tensor r" by (rule wfr)
    show "ndim s = ndim s" ..
    show "transpose_data (kron_perm n) (sd @ td) (outer_data xs ys)
            = transpose_data (kron_perm n) (sd @ td) (outer_data xs ys)" ..
  next
    fix k assume "k < n"
    then show "kron_perm n ! k = 2 * int k" "kron_perm n ! (n + k) = 2 * int k + 1"
      "pd ! k = sd ! k * td ! k"
      by (simp_all add: kron_perm_nth pdk)
  next
    fix "is" js ks
    assume a: "valid_index sd is \<and> valid_index td js \<and> length ks = n
                \<and> (\<forall>k<n. ks ! k = is ! k + sd ! k * js ! k)"
    have e: "valid_index pd ks
              \<and> transpose_data (kron_perm n) (sd @ td) (outer_data xs ys) ! offs pd ks
                  = xs ! offs sd is * ys ! offs td js"
      by (rule elem) (use a in simp_all)
    show "valid_index pd ks" by (rule conjunct1[OF e])
    show "transpose_data (kron_perm n) (sd @ td) (outer_data xs ys) ! offs pd ks
         = xs ! offs sd is * ys ! offs td js" by (rule conjunct2[OF e])
  qed
  then show ?thesis
    unfolding sd_def td_def n_def xs_def ys_def by (intro exI[of _ r])
qed

theorem TensorKroneckerProduct_interleaves_witness:
  "wf_tensor \<lparr>data = Buf [1, 0, 0, 1], dim = Buf [2, 2], ndim = 2\<rparr>
   \<and> wf_tensor \<lparr>data = Buf [0, 1, 1, 0], dim = Buf [2, 2], ndim = 2\<rparr>
   \<and> prod_list (dims_of \<lparr>data = Buf [1, 0, 0, 1], dim = Buf [2, 2], ndim = 2\<rparr>) = 4
   \<and> prod_list (dims_of \<lparr>data = Buf [0, 1, 1, 0], dim = Buf [2, 2], ndim = 2\<rparr>) = 4
   \<and> TensorKroneckerProduct \<lparr>data = Buf [1, 0, 0, 1], dim = Buf [2, 2], ndim = 2\<rparr>
        \<lparr>data = Buf [0, 1, 1, 0], dim = Buf [2, 2], ndim = 2\<rparr>
       = Inr \<lparr>data = Buf [0, 0, 1, 0,  0, 0, 0, 1,  1, 0, 0, 0,  0, 1, 0, 0],
              dim = Buf [4, 4], ndim = 2\<rparr>"
proof -
  let ?s = "\<lparr>data = Buf [1, 0, 0, 1], dim = Buf [2, 2], ndim = 2\<rparr>"
  let ?t = "\<lparr>data = Buf [0, 1, 1, 0], dim = Buf [2, 2], ndim = 2\<rparr>"
  have wfs: "wf_tensor ?s" and wft: "wf_tensor ?t" by code_simp+
  have k: "prod_list (dims_of ?s) = 4" "prod_list (dims_of ?t) = 4"
    by (simp_all add: dims_of_def)
  have run: "TensorKroneckerProduct ?s ?t
       = Inr \<lparr>data = Buf [0, 0, 1, 0,  0, 0, 0, 1,  1, 0, 0, 0,  0, 1, 0, 0],
              dim = Buf [4, 4], ndim = 2\<rparr>"
    by code_simp
  have r: "ndim ?s = ndim ?t" "1 \<le> ndim ?s" by simp_all
  have sm: "prod_list (dims_of ?s) < 2 ^ 31" "prod_list (dims_of ?t) < 2 ^ 31"
    unfolding k by simp_all
  have al: "int (prod_list (dims_of ?s) * prod_list (dims_of ?t)) * 16 \<le> SIZE_MAX"
    unfolding k by (simp add: SIZE_MAX_def)
  have rk: "ndim ?s + ndim ?t < 2 ^ 31" by simp
  from TensorKroneckerProduct_interleaves[OF wfs wft r sm al rk]
  obtain r where "TensorKroneckerProduct ?s ?t = Inr r" "wf_tensor r" by (elim exE conjE)
  then show ?thesis using wfs wft k run by blast
qed

text \<open>
  C3 as the spec words it fails for an operand whose element count does not fit an
  \<open>int\<close>: for \<open>S\<close> a vector of \<open>2\<^sup>3\<^sup>1\<close> ones and \<open>T = [1]\<close>, both of rank 1, the
  outer-product kernel is handed the extent \<open>-2\<^sup>3\<^sup>1\<close>, which it rejects, and no product
  is formed.
\<close>

theorem TensorKroneckerProduct_large_extent:
  "wf_tensor \<lparr>data = Buf (replicate (2 ^ 31) 1), dim = Buf [2 ^ 31], ndim = 1\<rparr>
   \<and> wf_tensor \<lparr>data = Buf [1], dim = Buf [1], ndim = 1\<rparr>
   \<and> TensorKroneckerProduct \<lparr>data = Buf (replicate (2 ^ 31) 1), dim = Buf [2 ^ 31], ndim = 1\<rparr>
        \<lparr>data = Buf [1], dim = Buf [1], ndim = 1\<rparr>
       = Inl KernelIllegalArg"
proof (intro conjI)
  show "wf_tensor \<lparr>data = Buf (replicate (2 ^ 31) 1), dim = Buf [2 ^ 31], ndim = 1\<rparr>"
    by (rule wf_big) (simp_all add: SIZE_MAX_def)
  show "wf_tensor \<lparr>data = Buf [1], dim = Buf [1], ndim = 1\<rparr>"
    by (simp add: wf_tensor_def dims_of_def elems_def SIZE_MAX_def)
  show "TensorKroneckerProduct \<lparr>data = Buf (replicate (2 ^ 31) 1), dim = Buf [2 ^ 31], ndim = 1\<rparr>
        \<lparr>data = Buf [1], dim = Buf [1], ndim = 1\<rparr>
       = Inl KernelIllegalArg"
  proof (rule TensorKroneckerProduct_nonpositive_count)
    show "size_t_to_int (2 ^ 31) < 0" unfolding size_t_to_int_2_31 by simp
  qed (simp_all add: SIZE_MAX_def)
qed

text \<open>
  At rank 0 the Kronecker product meets the missing rank-0 path of \<open>TransposeTensor\<close>:
  the product of two scalars reads \<open>perm[0]\<close> of an empty permutation array.
\<close>

theorem TensorKroneckerProduct_rank0_faults:
  "TensorKroneckerProduct \<lparr>data = Buf [2], dim = Null, ndim = 0\<rparr>
     \<lparr>data = Buf [3], dim = Null, ndim = 0\<rparr> = Inl OutOfBounds"
  by code_simp

section \<open>The \<open>int\<close> cast at the kernel calls\<close>

lemma shared_dims_match:
  assumes wfs: "wf_tensor s" and wft: "wf_tensor t"
    and m1: "1 \<le> m" and ms: "m \<le> ndim s" and mt: "m \<le> ndim t"
    and match: "\<forall>i<nat m. dims_of s ! (nat (ndim s - m) + i) = dims_of t ! i"
  shows "drop (length (dims_of s) - nat m) (dims_of s) = take (nat m) (dims_of t)"
proof -
  from wfs have nds: "ndim s = int (length (dims_of s))" by (auto elim: wf_tensorE)
  from wft have ndt: "ndim t = int (length (dims_of t))" by (auto elim: wf_tensorE)
  have mm: "nat m \<le> length (dims_of s)" "nat m \<le> length (dims_of t)"
    using m1 ms mt nds ndt by simp_all
  have e: "nat (ndim s - m) = length (dims_of s) - nat m" using nds m1 by simp
  show ?thesis
  proof (rule nth_equalityI)
    show "length (drop (length (dims_of s) - nat m) (dims_of s)) = length (take (nat m) (dims_of t))"
      using mm by simp
  next
    fix i assume "i < length (drop (length (dims_of s) - nat m) (dims_of s))"
    then have i: "i < nat m" using mm by simp
    then show "drop (length (dims_of s) - nat m) (dims_of s) ! i = take (nat m) (dims_of t) ! i"
      using match mm e by simp
  qed
qed

text \<open>
  C8, as the code has it. No size check guards the \<open>(int)\<close> cast at a kernel call
  (\<open>ScaleTensor\<close> converts implicitly): each kernel receives \<open>size_t_to_int N\<close> for an
  element count or extent \<open>N\<close>, which is \<open>N\<close> exactly when \<open>N < 2\<^sup>3\<^sup>1\<close>.
  \<^item> On well-formed operands \<open>ScalarMultiplyAddTensor\<close> (whose assertions compare the ranks
    and the element counts of the two operands only) and \<open>ScaleTensor\<close> never abort: they
    return with the first \<open>max 0 (size_t_to_int N)\<close> elements updated and the others as
    they were.
  \<^item> \<open>MultiplyTensor\<close>, on operands whose shared dimensions agree and once the result is
    allocated, returns what the dot, matrix-vector or matrix-matrix kernel returns on the
    cast extents \<open>LDS\<close>, \<open>K\<close>, \<open>TDT\<close>, whatever their size: the data the kernel leaves,
    or the kernel's fault.
  \<^item> \<open>TensorKroneckerProduct\<close>, on operands of equal rank \<open>n \<ge> 1\<close> and once the temporary
    tensor is allocated, returns the transposed data that the outer-product kernel leaves
    on the cast element counts of the two operands, whatever their size, or the kernel's
    fault.
\<close>

theorem kernel_count_is_cast:
  "(size_t_to_int n = int n \<longleftrightarrow> n < 2 ^ 31)
   \<and> (wf_tensor s \<and> wf_tensor t \<and> ndim s = ndim t \<and> length (elems s) = length (elems t) \<longrightarrow>
        ScalarMultiplyAddTensor alpha s t
          = Inr (t\<lparr>data := Buf (map (\<lambda>i. alpha * elems s ! i + elems t ! i)
                                   [0..<nat (size_t_to_int (length (elems s)))]
                                 @ drop (nat (size_t_to_int (length (elems s)))) (elems t))\<rparr>))
   \<and> (wf_tensor t \<longrightarrow>
        ScaleTensor a t
          = Inr (t\<lparr>data := Buf (map (\<lambda>v. of_real a * v)
                                   (take (nat (size_t_to_int (length (elems t)))) (elems t))
                                 @ drop (nat (size_t_to_int (length (elems t)))) (elems t))\<rparr>))
   \<and> (wf_tensor s \<and> wf_tensor t \<and> 1 \<le> m \<and> m \<le> ndim s \<and> m \<le> ndim t
        \<and> (\<forall>i<nat m. dims_of s ! (nat (ndim s - m) + i) = dims_of t ! i)
        \<and> ndim s + ndim t < 2 ^ 31
        \<and> int (prod_list (kept_s s m) * prod_list (kept_t t m)) * 16 \<le> SIZE_MAX \<longrightarrow>
       (let lds = prod_list (kept_s s m); K = prod_list (shared_t t m);
            tdt = prod_list (kept_t t m);
            rdm = (if kept_s s m @ kept_t t m = [] then Null else Buf (kept_s s m @ kept_t t m))
        in MultiplyTensor s t m =
         (if lds = 1 \<and> tdt = 1 then
            bnd (cblas_zdotu_sub (size_t_to_int (lds * K)) (data s) (data t)) (\<lambda>v.
              Inr \<lparr>data = Buf [v], dim = rdm, ndim = ndim s + ndim t - 2 * m\<rparr>)
          else if lds = 1 then
            bnd (cblas_zgemv CblasTrans (size_t_to_int K) (size_t_to_int tdt) 1
                   (data t) (size_t_to_int K) (data s) 0 (Buf (replicate (lds * tdt) 0))) (\<lambda>d.
              Inr \<lparr>data = d, dim = rdm, ndim = ndim s + ndim t - 2 * m\<rparr>)
          else if tdt = 1 then
            bnd (cblas_zgemv CblasNoTrans (size_t_to_int lds) (size_t_to_int K) 1
                   (data s) (size_t_to_int lds) (data t) 0 (Buf (replicate (lds * tdt) 0))) (\<lambda>d.
              Inr \<lparr>data = d, dim = rdm, ndim = ndim s + ndim t - 2 * m\<rparr>)
          else
            bnd (cblas_zgemm (size_t_to_int lds) (size_t_to_int tdt) (size_t_to_int K) 1
                   (data s) (size_t_to_int lds) (data t) (size_t_to_int K) 0
                   (Buf (replicate (lds * tdt) 0)) (size_t_to_int lds)) (\<lambda>d.
              Inr \<lparr>data = d, dim = rdm, ndim = ndim s + ndim t - 2 * m\<rparr>))))
   \<and> (wf_tensor s \<and> wf_tensor t \<and> ndim s = ndim t \<and> 1 \<le> ndim s
        \<and> ndim s + ndim t < 2 ^ 31
        \<and> int (prod_list (dims_of s) * prod_list (dims_of t)) * 16 \<le> SIZE_MAX \<longrightarrow>
       (let M = prod_list (dims_of s); N = prod_list (dims_of t)
        in TensorKroneckerProduct s t =
          bnd (cblas_zgeru (size_t_to_int M) (size_t_to_int N) 1 (data s) (data t)
                 (Buf (replicate (M * N) 0)) (size_t_to_int M)) (\<lambda>udata.
            Inr \<lparr>data = Buf (transpose_data (kron_perm (nat (ndim s))) (dims_of s @ dims_of t)
                              (buf_list udata)),
                 dim = Buf (map2 (*) (dims_of s) (dims_of t)), ndim = ndim s\<rparr>)))"
proof (intro conjI impI)
  show "size_t_to_int n = int n \<longleftrightarrow> n < 2 ^ 31" by (rule size_t_to_int_exact)
next
  assume "wf_tensor s \<and> wf_tensor t \<and> ndim s = ndim t \<and> length (elems s) = length (elems t)"
  then show "ScalarMultiplyAddTensor alpha s t
          = Inr (t\<lparr>data := Buf (map (\<lambda>i. alpha * elems s ! i + elems t ! i)
                                   [0..<nat (size_t_to_int (length (elems s)))]
                                 @ drop (nat (size_t_to_int (length (elems s)))) (elems t))\<rparr>)"
    by (rule ScalarMultiplyAddTensor_cast)
next
  assume "wf_tensor t"
  then show "ScaleTensor a t
          = Inr (t\<lparr>data := Buf (map (\<lambda>v. of_real a * v)
                                   (take (nat (size_t_to_int (length (elems t)))) (elems t))
                                 @ drop (nat (size_t_to_int (length (elems t)))) (elems t))\<rparr>)"
    by (rule ScaleTensor_cast)
next
  assume a: "wf_tensor s \<and> wf_tensor t \<and> 1 \<le> m \<and> m \<le> ndim s \<and> m \<le> ndim t
        \<and> (\<forall>i<nat m. dims_of s ! (nat (ndim s - m) + i) = dims_of t ! i)
        \<and> ndim s + ndim t < 2 ^ 31
        \<and> int (prod_list (kept_s s m) * prod_list (kept_t t m)) * 16 \<le> SIZE_MAX"
  then have wfs: "wf_tensor s" and wft: "wf_tensor t" and m1: "1 \<le> m"
    and ms: "m \<le> ndim s" and mt: "m \<le> ndim t"
    and match: "\<forall>i<nat m. dims_of s ! (nat (ndim s - m) + i) = dims_of t ! i"
    and alloc: "int (prod_list (kept_s s m) * prod_list (kept_t t m)) * 16 \<le> SIZE_MAX"
    by simp_all
  note shared = shared_dims_match[OF wfs wft m1 ms mt match]
  show "(let lds = prod_list (kept_s s m); K = prod_list (shared_t t m);
            tdt = prod_list (kept_t t m);
            rdm = (if kept_s s m @ kept_t t m = [] then Null else Buf (kept_s s m @ kept_t t m))
        in MultiplyTensor s t m =
         (if lds = 1 \<and> tdt = 1 then
            bnd (cblas_zdotu_sub (size_t_to_int (lds * K)) (data s) (data t)) (\<lambda>v.
              Inr \<lparr>data = Buf [v], dim = rdm, ndim = ndim s + ndim t - 2 * m\<rparr>)
          else if lds = 1 then
            bnd (cblas_zgemv CblasTrans (size_t_to_int K) (size_t_to_int tdt) 1
                   (data t) (size_t_to_int K) (data s) 0 (Buf (replicate (lds * tdt) 0))) (\<lambda>d.
              Inr \<lparr>data = d, dim = rdm, ndim = ndim s + ndim t - 2 * m\<rparr>)
          else if tdt = 1 then
            bnd (cblas_zgemv CblasNoTrans (size_t_to_int lds) (size_t_to_int K) 1
                   (data s) (size_t_to_int lds) (data t) 0 (Buf (replicate (lds * tdt) 0))) (\<lambda>d.
              Inr \<lparr>data = d, dim = rdm, ndim = ndim s + ndim t - 2 * m\<rparr>)
          else
            bnd (cblas_zgemm (size_t_to_int lds) (size_t_to_int tdt) (size_t_to_int K) 1
                   (data s) (size_t_to_int lds) (data t) (size_t_to_int K) 0
                   (Buf (replicate (lds * tdt) 0)) (size_t_to_int lds)) (\<lambda>d.
              Inr \<lparr>data = d, dim = rdm, ndim = ndim s + ndim t - 2 * m\<rparr>)))"
    unfolding Let_def kept_s_def shared_t_def kept_t_def
    by (rule MultiplyTensor_kernel[OF wfs wft m1 ms mt shared refl refl refl refl refl
          alloc[unfolded kept_s_def kept_t_def]])
next
  assume a: "wf_tensor s \<and> wf_tensor t \<and> ndim s = ndim t \<and> 1 \<le> ndim s
        \<and> ndim s + ndim t < 2 ^ 31
        \<and> int (prod_list (dims_of s) * prod_list (dims_of t)) * 16 \<le> SIZE_MAX"
  then have wfs: "wf_tensor s" and wft: "wf_tensor t" and eq: "ndim s = ndim t"
    and r1: "1 \<le> ndim s"
    and alloc: "int (prod_list (dims_of s) * prod_list (dims_of t)) * 16 \<le> SIZE_MAX"
    by simp_all
  show "(let M = prod_list (dims_of s); N = prod_list (dims_of t)
        in TensorKroneckerProduct s t =
          bnd (cblas_zgeru (size_t_to_int M) (size_t_to_int N) 1 (data s) (data t)
                 (Buf (replicate (M * N) 0)) (size_t_to_int M)) (\<lambda>udata.
            Inr \<lparr>data = Buf (transpose_data (kron_perm (nat (ndim s))) (dims_of s @ dims_of t)
                              (buf_list udata)),
                 dim = Buf (map2 (*) (dims_of s) (dims_of t)), ndim = ndim s\<rparr>))"
    unfolding Let_def
    by (rule TensorKroneckerProduct_kernel[OF wfs wft eq r1 refl refl refl refl refl alloc])
qed

theorem kernel_count_is_cast_witness:
  "wf_tensor \<lparr>data = Buf [1, 2], dim = Buf [2], ndim = 1\<rparr>
   \<and> ScalarMultiplyAddTensor 2 \<lparr>data = Buf [1, 2], dim = Buf [2], ndim = 1\<rparr>
        \<lparr>data = Buf [1, 2], dim = Buf [2], ndim = 1\<rparr>
       = Inr \<lparr>data = Buf [3, 6], dim = Buf [2], ndim = 1\<rparr>
   \<and> ScaleTensor 3 \<lparr>data = Buf [1, 2], dim = Buf [2], ndim = 1\<rparr>
       = Inr \<lparr>data = Buf [3, 6], dim = Buf [2], ndim = 1\<rparr>
   \<and> MultiplyTensor \<lparr>data = Buf [1, 2], dim = Buf [2], ndim = 1\<rparr>
        \<lparr>data = Buf [1, 2], dim = Buf [2], ndim = 1\<rparr> 1
       = Inr \<lparr>data = Buf [5], dim = Null, ndim = 0\<rparr>
   \<and> TensorKroneckerProduct \<lparr>data = Buf [1, 2], dim = Buf [2], ndim = 1\<rparr>
        \<lparr>data = Buf [1, 2], dim = Buf [2], ndim = 1\<rparr>
       = Inr \<lparr>data = Buf [1, 2, 2, 4], dim = Buf [4], ndim = 1\<rparr>
   \<and> size_t_to_int 2 = 2"
proof -
  let ?t = "\<lparr>data = Buf [1, 2], dim = Buf [2], ndim = 1\<rparr>"
  note T = kernel_count_is_cast[of 2 ?t ?t 2 3 1]
  have wf: "wf_tensor ?t" by code_simp
  have "(size_t_to_int 2 = int 2) = ((2::nat) < 2 ^ 31)" by (rule conjunct1[OF T])
  then have c: "size_t_to_int 2 = 2" by simp
  have h: "wf_tensor ?t \<and> wf_tensor ?t \<and> ndim ?t = ndim ?t
             \<and> length (elems ?t) = length (elems ?t)"
    using wf by simp
  note axpy = mp[OF conjunct1[OF conjunct2[OF T]] h]
  note scal = mp[OF conjunct1[OF conjunct2[OF conjunct2[OF T]]] wf]
  have hm: "wf_tensor ?t \<and> wf_tensor ?t \<and> (1::int) \<le> 1 \<and> 1 \<le> ndim ?t \<and> 1 \<le> ndim ?t
        \<and> (\<forall>i<nat 1. dims_of ?t ! (nat (ndim ?t - 1) + i) = dims_of ?t ! i)
        \<and> ndim ?t + ndim ?t < 2 ^ 31
        \<and> int (prod_list (kept_s ?t 1) * prod_list (kept_t ?t 1)) * 16 \<le> SIZE_MAX"
    using wf by (simp add: kept_s_def kept_t_def dims_of_def SIZE_MAX_def)
  note mult = mp[OF conjunct1[OF conjunct2[OF conjunct2[OF conjunct2[OF T]]]] hm]
  have hk: "wf_tensor ?t \<and> wf_tensor ?t \<and> ndim ?t = ndim ?t \<and> 1 \<le> ndim ?t
        \<and> ndim ?t + ndim ?t < 2 ^ 31
        \<and> int (prod_list (dims_of ?t) * prod_list (dims_of ?t)) * 16 \<le> SIZE_MAX"
    using wf by (simp add: dims_of_def SIZE_MAX_def)
  note kron = mp[OF conjunct2[OF conjunct2[OF conjunct2[OF conjunct2[OF T]]]] hk]
  have r1: "ScalarMultiplyAddTensor 2 ?t ?t = Inr \<lparr>data = Buf [3, 6], dim = Buf [2], ndim = 1\<rparr>"
    by code_simp
  have r2: "ScaleTensor 3 ?t = Inr \<lparr>data = Buf [3, 6], dim = Buf [2], ndim = 1\<rparr>"
    by code_simp
  have r3: "MultiplyTensor ?t ?t 1 = Inr \<lparr>data = Buf [5], dim = Null, ndim = 0\<rparr>"
    by code_simp
  have r4: "TensorKroneckerProduct ?t ?t = Inr \<lparr>data = Buf [1, 2, 2, 4], dim = Buf [4], ndim = 1\<rparr>"
    by code_simp
  show ?thesis using wf c r1 r2 r3 r4 by (intro conjI)
qed

section \<open>Allocation of the result\<close>

text \<open>
  \<open>AllocateTensor\<close> asserts that the allocator has answered with a buffer. When the
  result of a contraction, or the temporary tensor of a Kronecker product, has an
  element count that is a \<open>size_t\<close> and a byte count that is not, the call aborts at
  that assertion.
\<close>

theorem MultiplyTensor_result_not_allocated:
  assumes wfs: "wf_tensor s" and wft: "wf_tensor t"
    and m1: "1 \<le> m" and ms: "m \<le> ndim s" and mt: "m \<le> ndim t"
    and match: "\<forall>i<nat m. dims_of s ! (nat (ndim s - m) + i) = dims_of t ! i"
    and nowrap: "int (prod_list (kept_s s m) * prod_list (kept_t t m)) \<le> SIZE_MAX"
    and big: "\<not> int (prod_list (kept_s s m) * prod_list (kept_t t m)) * 16 \<le> SIZE_MAX"
  shows "MultiplyTensor s t m = Inl AssertionFailed"
proof -
  define rdims where "rdims = kept_s s m @ kept_t t m"
  from wfs have nds: "ndim s = int (length (dims_of s))" and poss: "\<forall>d\<in>set (dims_of s). 0 < d"
    by (auto elim: wf_tensorE)
  from wft have ndt: "ndim t = int (length (dims_of t))" and post: "\<forall>d\<in>set (dims_of t). 0 < d"
    by (auto elim: wf_tensorE)
  have lr: "ndim s + ndim t - 2 * m = int (length rdims)"
    using nds ndt m1 ms mt by (simp add: rdims_def kept_s_def kept_t_def)
  have pos: "\<forall>d\<in>set rdims. 0 < d"
    using poss post
    by (auto simp: rdims_def kept_s_def kept_t_def dest: in_set_takeD in_set_dropD)
  have pr: "prod_list rdims = prod_list (kept_s s m) * prod_list (kept_t t m)"
    by (simp add: rdims_def)
  have ne: "0 < length rdims"
  proof (rule ccontr)
    assume "\<not> 0 < length rdims"
    then have "prod_list rdims = 1" by simp
    then show False using big unfolding pr[symmetric] by (simp add: SIZE_MAX_def)
  qed
  have "AllocateTensor (int (length rdims)) (Buf rdims) = Inl AssertionFailed"
    by (rule AllocateTensor_fails[OF ne pos]) (use big in \<open>simp add: pr\<close>)
  then have A: "AllocateTensor (ndim s + ndim t - 2 * m)
                  (Buf (take (length (dims_of s) - nat m) (dims_of s) @ drop (nat m) (dims_of t)))
                = Inl AssertionFailed"
    unfolding lr by (simp add: rdims_def kept_s_def kept_t_def)
  note shared = shared_dims_match[OF wfs wft m1 ms mt match]
  from MultiplyTensor_dispatch[OF wfs wft m1 ms mt shared refl refl refl refl]
  show ?thesis by (simp only: A sum.case)
qed

theorem MultiplyTensor_result_not_allocated_witness:
  "wf_tensor \<lparr>data = Buf (replicate (2 ^ 30) 1), dim = Buf [2 ^ 30, 1], ndim = 2\<rparr>
   \<and> wf_tensor \<lparr>data = Buf (replicate (2 ^ 30) 1), dim = Buf [1, 2 ^ 30], ndim = 2\<rparr>
   \<and> MultiplyTensor \<lparr>data = Buf (replicate (2 ^ 30) 1), dim = Buf [2 ^ 30, 1], ndim = 2\<rparr>
        \<lparr>data = Buf (replicate (2 ^ 30) 1), dim = Buf [1, 2 ^ 30], ndim = 2\<rparr> 1
       = Inl AssertionFailed"
proof -
  let ?s = "\<lparr>data = Buf (replicate (2 ^ 30) (1::complex)), dim = Buf [2 ^ 30, 1], ndim = 2\<rparr>"
  let ?t = "\<lparr>data = Buf (replicate (2 ^ 30) (1::complex)), dim = Buf [1, 2 ^ 30], ndim = 2\<rparr>"
  have wfs: "wf_tensor ?s" and wft: "wf_tensor ?t"
    by (simp_all add: wf_tensor_def dims_of_def elems_def SIZE_MAX_def)
  have m: "(1::int) \<le> 1" "1 \<le> ndim ?s" "1 \<le> ndim ?t" by simp_all
  have match: "\<forall>i<nat 1. dims_of ?s ! (nat (ndim ?s - 1) + i) = dims_of ?t ! i"
    by (simp add: dims_of_def)
  have big: "\<not> int (prod_list (kept_s ?s 1) * prod_list (kept_t ?t 1)) * 16 \<le> SIZE_MAX"
    by (simp add: kept_s_def kept_t_def dims_of_def SIZE_MAX_def)
  have nowrap: "int (prod_list (kept_s ?s 1) * prod_list (kept_t ?t 1)) \<le> SIZE_MAX"
    by (simp add: kept_s_def kept_t_def dims_of_def SIZE_MAX_def)
  from MultiplyTensor_result_not_allocated[OF wfs wft m match nowrap big] wfs wft
  show ?thesis by (intro conjI)
qed

theorem TensorKroneckerProduct_result_not_allocated:
  assumes wfs: "wf_tensor s" and wft: "wf_tensor t" and eq: "ndim s = ndim t"
    and r1: "1 \<le> ndim s"
    and nowrap: "int (prod_list (dims_of s) * prod_list (dims_of t)) \<le> SIZE_MAX"
    and big: "\<not> int (prod_list (dims_of s) * prod_list (dims_of t)) * 16 \<le> SIZE_MAX"
  shows "TensorKroneckerProduct s t = Inl AssertionFailed"
proof -
  from wfs have nds: "ndim s = int (length (dims_of s))" and poss: "\<forall>d\<in>set (dims_of s). 0 < d"
    by (auto elim: wf_tensorE)
  from wft have ndt: "ndim t = int (length (dims_of t))" and post: "\<forall>d\<in>set (dims_of t). 0 < d"
    by (auto elim: wf_tensorE)
  have lu: "ndim s + ndim t = int (length (dims_of s @ dims_of t))" using nds ndt by simp
  have "0 < length (dims_of s)" using r1 nds by linarith
  then have ne: "0 < length (dims_of s @ dims_of t)" by simp
  have pos: "\<forall>d\<in>set (dims_of s @ dims_of t). 0 < d" using poss post by auto
  have A: "AllocateTensor (ndim s + ndim t) (Buf (dims_of s @ dims_of t)) = Inl AssertionFailed"
    unfolding lu by (rule AllocateTensor_fails[OF ne pos]) (use big in simp)
  from TensorKroneckerProduct_dispatch[OF wfs wft eq r1 refl refl refl refl refl]
  show ?thesis by (simp only: A sum.case)
qed

theorem TensorKroneckerProduct_result_not_allocated_witness:
  "wf_tensor \<lparr>data = Buf (replicate (2 ^ 30) 1), dim = Buf [2 ^ 30], ndim = 1\<rparr>
   \<and> TensorKroneckerProduct \<lparr>data = Buf (replicate (2 ^ 30) 1), dim = Buf [2 ^ 30], ndim = 1\<rparr>
        \<lparr>data = Buf (replicate (2 ^ 30) 1), dim = Buf [2 ^ 30], ndim = 1\<rparr>
       = Inl AssertionFailed"
proof -
  let ?s = "\<lparr>data = Buf (replicate (2 ^ 30) (1::complex)), dim = Buf [2 ^ 30], ndim = 1\<rparr>"
  have wfs: "wf_tensor ?s" by (rule wf_big) (simp_all add: SIZE_MAX_def)
  have r: "ndim ?s = ndim ?s" "1 \<le> ndim ?s" by simp_all
  have big: "\<not> int (prod_list (dims_of ?s) * prod_list (dims_of ?s)) * 16 \<le> SIZE_MAX"
    by (simp add: dims_of_def SIZE_MAX_def)
  have nowrap: "int (prod_list (dims_of ?s) * prod_list (dims_of ?s)) \<le> SIZE_MAX"
    by (simp add: dims_of_def SIZE_MAX_def)
  from TensorKroneckerProduct_result_not_allocated[OF wfs wfs r nowrap big] wfs
  show ?thesis by (intro conjI)
qed

end
